theory Spec2Isabelle
  imports Complex_Main "HOL-Library.AList"
begin

section \<open>Data model\<close>

text \<open>
  A page is a file name.  A Python \<open>dict\<close> keeps its keys in insertion order and
  iterates in that order, so it is an association list whose keys are pairwise
  different; storing under an existing key replaces the value in place, storing
  under a new key appends.  A Python \<open>set\<close> of pages is the list of its elements
  in the order in which a \<open>for\<close> loop visits them, without repetition, so that
  \<open>len\<close> is the length of the list.  Python floats are idealised as
  rational numbers: every operation is exact, rounding is not modelled.
\<close>

type_synonym page = string
type_synonym 'v dict = "(page \<times> 'v) list"
type_synonym pyset = "page list"
type_synonym corpus = "pyset dict"

datatype error = KeyError | ZeroDivisionError | IndexError | ValueError | TypeError

definition keys :: "'v dict \<Rightarrow> page list" where
  "keys d = map fst d"

definition getitem :: "'v dict \<Rightarrow> page \<Rightarrow> error + 'v" where
  "getitem d k = (case map_of d k of None \<Rightarrow> Inl KeyError | Some v \<Rightarrow> Inr v)"

definition setitem :: "'v dict \<Rightarrow> page \<Rightarrow> 'v \<Rightarrow> 'v dict" where
  "setitem d k v = AList.update k v d"

definition truediv :: "rat \<Rightarrow> rat \<Rightarrow> error + rat" where
  "truediv a b = (if b = 0 then Inl ZeroDivisionError else Inr (a / b))"

text \<open>
  The invariants of a corpus: it is a dictionary (no key twice), every outbound
  set is a set (no element twice), and every link leads to a page of the corpus.
\<close>

definition wf_corpus :: "corpus \<Rightarrow> bool" where
  "wf_corpus corpus \<longleftrightarrow>
     distinct (keys corpus) \<and>
     list_all (\<lambda>(p, links). distinct links \<and> list_all (\<lambda>l. l \<in> set (keys corpus)) links) corpus"

section \<open>transition_model\<close>

text \<open>
  The loops \<open>for each_page in corpus: cont[each_page] = (1 - damping_factor) / len(corpus)\<close>
  and \<open>for page in corpus: cont[page] = 1 / len(corpus)\<close>, with the numerator as
  a parameter.  The same loop initialises \<open>ans\<close> in \<open>iterate_pagerank\<close>.
\<close>

fun assign_all :: "page list \<Rightarrow> rat \<Rightarrow> nat \<Rightarrow> rat dict \<Rightarrow> error + rat dict" where
  "assign_all [] num n cont = Inr cont"
| "assign_all (p # ps) num n cont =
     (case truediv num (of_nat n) of
        Inl e \<Rightarrow> Inl e
      | Inr v \<Rightarrow> assign_all ps num n (setitem cont p v))"

text \<open>The loop \<open>for link in corpus[page]: cont[link] += damping_factor / len(corpus[page])\<close>.\<close>

fun add_links :: "pyset \<Rightarrow> rat \<Rightarrow> nat \<Rightarrow> rat dict \<Rightarrow> error + rat dict" where
  "add_links [] d L cont = Inr cont"
| "add_links (link # ls) d L cont =
     (case getitem cont link of
        Inl e \<Rightarrow> Inl e
      | Inr old \<Rightarrow>
          (case truediv d (of_nat L) of
             Inl e \<Rightarrow> Inl e
           | Inr v \<Rightarrow> add_links ls d L (setitem cont link (old + v))))"

definition transition_model :: "corpus \<Rightarrow> page \<Rightarrow> rat \<Rightarrow> error + rat dict" where
  "transition_model corpus page damping_factor =
     (case getitem corpus page of
        Inl e \<Rightarrow> Inl e
      | Inr links \<Rightarrow>
          (let link_exists = length links in
           if link_exists \<noteq> 0 then
             (case assign_all (keys corpus) (1 - damping_factor) (length corpus) [] of
                Inl e \<Rightarrow> Inl e
              | Inr cont \<Rightarrow> add_links links damping_factor (length links) cont)
           else assign_all (keys corpus) 1 (length corpus) []))"

section \<open>sample_pagerank\<close>

text \<open>
  The random source is a parameter: \<open>rnd i\<close> is the \<open>i\<close>-th uniform variate in
  \<open>[0, 1)\<close> that the run consumes.

  Modelled from the spec: \<open>random.choice\<close> is library code.  The spec has the
  starting page chosen uniformly among all corpus pages; the variate \<open>u\<close> selects
  the element at index \<open>floor (u * len seq)\<close>, and an empty sequence raises
  \<open>IndexError\<close>.
\<close>

definition random_choice :: "rat \<Rightarrow> page list \<Rightarrow> error + page" where
  "random_choice u seq =
     (if seq = [] then Inl IndexError
      else Inr (seq ! min (nat \<lfloor>u * of_nat (length seq)\<rfloor>) (length seq - 1)))"

text \<open>
  Modelled from the spec: \<open>random.choices\<close> is library code.  The spec's
  weighted choice: the cumulative weights over the fixed order of the pages, a
  uniform draw scaled by the total, and the first page whose cumulative weight
  exceeds it (the last page when none does).
\<close>

fun accumulate :: "rat list \<Rightarrow> rat \<Rightarrow> rat list" where
  "accumulate [] acc = []"
| "accumulate (w # ws) acc = (acc + w) # accumulate ws (acc + w)"

fun bisect :: "rat list \<Rightarrow> rat \<Rightarrow> nat" where
  "bisect [] x = 0"
| "bisect [c] x = 0"
| "bisect (c # cs) x = (if x < c then 0 else Suc (bisect cs x))"

definition random_choices :: "rat \<Rightarrow> page list \<Rightarrow> rat list \<Rightarrow> error + page" where
  "random_choices u population weights =
     (let cum_weights = accumulate weights 0 in
      if cum_weights = [] then Inl IndexError
      else
        (let total = last cum_weights in
         if total \<le> 0 then Inl ValueError
         else Inr (population ! bisect cum_weights (u * total))))"

text \<open>The loop \<open>for key in corpus: cont[key] = 0\<close>.\<close>

fun zero_all :: "page list \<Rightarrow> int dict \<Rightarrow> int dict" where
  "zero_all [] cont = cont"
| "zero_all (key # ks) cont = zero_all ks (setitem cont key 0)"

text \<open>
  The loop \<open>for i in range(n)\<close>: \<open>i\<close> is the index of the next variate,
  \<open>k\<close> the number of rounds left.
\<close>

fun sample_loop ::
  "corpus \<Rightarrow> rat \<Rightarrow> (nat \<Rightarrow> rat) \<Rightarrow> nat \<Rightarrow> nat \<Rightarrow> page \<Rightarrow> int dict \<Rightarrow> error + int dict" where
  "sample_loop corpus d rnd i 0 page cont = Inr cont"
| "sample_loop corpus d rnd i (Suc k) page cont =
     (case transition_model corpus page d of
        Inl e \<Rightarrow> Inl e
      | Inr sample \<Rightarrow>
          (case random_choices (rnd i) (keys sample) (map snd sample) of
             Inl e \<Rightarrow> Inl e
           | Inr page' \<Rightarrow>
               (case getitem cont page' of
                  Inl e \<Rightarrow> Inl e
                | Inr c \<Rightarrow> sample_loop corpus d rnd (Suc i) k page' (setitem cont page' (c + 1)))))"

text \<open>
  The loop \<open>for key in cont: cont[key] = cont[key] / n\<close> visits every entry once
  and replaces its counter by the quotient, keeping the order of the keys.
\<close>

fun divide_all :: "int dict \<Rightarrow> int \<Rightarrow> error + rat dict" where
  "divide_all [] n = Inr []"
| "divide_all ((key, c) # rest) n =
     (case truediv (of_int c) (of_int n) of
        Inl e \<Rightarrow> Inl e
      | Inr v \<Rightarrow>
          (case divide_all rest n of
             Inl e \<Rightarrow> Inl e
           | Inr rest' \<Rightarrow> Inr ((key, v) # rest')))"

definition sample_pagerank :: "corpus \<Rightarrow> rat \<Rightarrow> int \<Rightarrow> (nat \<Rightarrow> rat) \<Rightarrow> error + rat dict" where
  "sample_pagerank corpus damping_factor n rnd =
     (let cont = zero_all (keys corpus) [] in
      case random_choice (rnd 0) (keys corpus) of
        Inl e \<Rightarrow> Inl e
      | Inr page \<Rightarrow>
          (case getitem cont page of
             Inl e \<Rightarrow> Inl e
           | Inr c \<Rightarrow>
               (case sample_loop corpus damping_factor rnd 1 (nat n) page
                       (setitem cont page (c + 1)) of
                  Inl e \<Rightarrow> Inl e
                | Inr cont' \<Rightarrow> divide_all cont' n)))"

section \<open>iterate_pagerank\<close>

text \<open>
  The inner loop \<open>for page in corpus\<close> that accumulates \<open>sum\<close> (here \<open>s\<close>) for one
  \<open>key\<close>, reading the ranks from the table \<open>ans\<close>.
\<close>

fun sum_loop :: "corpus \<Rightarrow> rat dict \<Rightarrow> page \<Rightarrow> page list \<Rightarrow> rat \<Rightarrow> error + rat" where
  "sum_loop corpus ans key [] s = Inr s"
| "sum_loop corpus ans key (page # ps) s =
     (case getitem corpus page of
        Inl e \<Rightarrow> Inl e
      | Inr links \<Rightarrow>
          if key \<in> set links then
            (case getitem ans page of
               Inl e \<Rightarrow> Inl e
             | Inr r \<Rightarrow>
                 (case truediv r (of_nat (length links)) of
                    Inl e \<Rightarrow> Inl e
                  | Inr q \<Rightarrow> sum_loop corpus ans key ps (s + q)))
          else if length links = 0 then
            (case getitem ans page of
               Inl e \<Rightarrow> Inl e
             | Inr r \<Rightarrow>
                 (case truediv r (of_nat (length corpus)) of
                    Inl e \<Rightarrow> Inl e
                  | Inr q \<Rightarrow> sum_loop corpus ans key ps (s + q)))
          else sum_loop corpus ans key ps s)"

text \<open>
  The loop \<open>for key in corpus\<close> of one pass.  It reads and writes the one table
  \<open>ans\<close>; \<open>count\<close> is the number of pages whose change was below the threshold.
\<close>

fun pass_loop :: "corpus \<Rightarrow> rat \<Rightarrow> page list \<Rightarrow> rat dict \<Rightarrow> nat \<Rightarrow> error + (rat dict \<times> nat)" where
  "pass_loop corpus d [] ans count = Inr (ans, count)"
| "pass_loop corpus d (key # ks) ans count =
     (case truediv (1 - d) (of_nat (length corpus)) of
        Inl e \<Rightarrow> Inl e
      | Inr new0 \<Rightarrow>
          (case sum_loop corpus ans key (keys corpus) 0 of
             Inl e \<Rightarrow> Inl e
           | Inr s \<Rightarrow>
               (let new = new0 + d * s in
                case getitem ans key of
                  Inl e \<Rightarrow> Inl e
                | Inr old \<Rightarrow>
                    pass_loop corpus d ks (setitem ans key new)
                      (if \<bar>old - new\<bar> < 1 / 1000 then count + 1 else count))))"

text \<open>
  The loop \<open>while True\<close>.  Nothing bounds the number of passes, so the loop is a
  partial function: \<open>None\<close> is a run that never returns.
\<close>

partial_function (option) while_loop :: "corpus \<Rightarrow> rat \<Rightarrow> rat dict \<Rightarrow> (error + rat dict) option" where
  "while_loop corpus d ans =
     (case pass_loop corpus d (keys corpus) ans 0 of
        Inl e \<Rightarrow> Some (Inl e)
      | Inr (ans', count) \<Rightarrow>
          if count = length corpus then Some (Inr ans') else while_loop corpus d ans')"

declare while_loop.simps [code]

definition iterate_pagerank :: "corpus \<Rightarrow> rat \<Rightarrow> (error + rat dict) option" where
  "iterate_pagerank corpus damping_factor =
     (case assign_all (keys corpus) 1 (length corpus) [] of
        Inl e \<Rightarrow> Some (Inl e)
      | Inr ans \<Rightarrow> while_loop corpus damping_factor ans)"

text \<open>
  The pass as the specification words it, for comparison: two tables, the
  snapshot \<open>prev\<close> of the previous pass, which every sum and every convergence
  test reads, and the buffer \<open>buf\<close> of the next pass, which receives the new
  values.
\<close>

fun spec_snapshot_loop ::
  "corpus \<Rightarrow> rat \<Rightarrow> page list \<Rightarrow> rat dict \<Rightarrow> rat dict \<Rightarrow> nat \<Rightarrow> error + (rat dict \<times> nat)" where
  "spec_snapshot_loop corpus d [] prev buf count = Inr (buf, count)"
| "spec_snapshot_loop corpus d (key # ks) prev buf count =
     (case truediv (1 - d) (of_nat (length corpus)) of
        Inl e \<Rightarrow> Inl e
      | Inr new0 \<Rightarrow>
          (case sum_loop corpus prev key (keys corpus) 0 of
             Inl e \<Rightarrow> Inl e
           | Inr s \<Rightarrow>
               (let new = new0 + d * s in
                case getitem prev key of
                  Inl e \<Rightarrow> Inl e
                | Inr old \<Rightarrow>
                    spec_snapshot_loop corpus d ks prev (setitem buf key new)
                      (if \<bar>old - new\<bar> < 1 / 1000 then count + 1 else count))))"

definition spec_snapshot_pass :: "corpus \<Rightarrow> rat \<Rightarrow> rat dict \<Rightarrow> error + (rat dict \<times> nat)" where
  "spec_snapshot_pass corpus d prev = spec_snapshot_loop corpus d (keys corpus) prev [] 0"

section \<open>crawl\<close>

text \<open>
  The directory is the list of its entries, each a file name with the text that
  reading the file returns, in the order of \<open>os.listdir\<close>.  The regular
  expression search \<open>re.findall\<close> is library code and a parameter: \<open>findall\<close>
  maps the text of a file to the list of the link targets found in it.
\<close>

definition endswith :: "string \<Rightarrow> string \<Rightarrow> bool" where
  "endswith s suf \<longleftrightarrow> length suf \<le> length s \<and> drop (length s - length suf) s = suf"

definition set_of_list :: "page list \<Rightarrow> pyset" where
  "set_of_list xs = remdups xs"

definition set_minus :: "pyset \<Rightarrow> pyset \<Rightarrow> pyset" where
  "set_minus a b = filter (\<lambda>x. x \<notin> set b) a"

text \<open>The first loop: \<open>pages[filename] = set(links) - {filename}\<close> for every \<open>.html\<close> file.\<close>

fun extract_loop :: "(string \<Rightarrow> string list) \<Rightarrow> (string \<times> string) list \<Rightarrow> corpus \<Rightarrow> corpus" where
  "extract_loop findall [] pages = pages"
| "extract_loop findall ((filename, contents) # rest) pages =
     (if \<not> endswith filename ''.html'' then extract_loop findall rest pages
      else
        (let links = findall contents in
         extract_loop findall rest
           (setitem pages filename (set_minus (set_of_list links) [filename]))))"

text \<open>
  The second loop:
  \<open>pages[filename] = set(link for link in pages[filename] if link in pages)\<close>.
\<close>

fun restrict_loop :: "page list \<Rightarrow> corpus \<Rightarrow> error + corpus" where
  "restrict_loop [] pages = Inr pages"
| "restrict_loop (filename # rest) pages =
     (case getitem pages filename of
        Inl e \<Rightarrow> Inl e
      | Inr links \<Rightarrow>
          restrict_loop rest
            (setitem pages filename
               (set_of_list (filter (\<lambda>link. link \<in> set (keys pages)) links))))"

definition crawl :: "(string \<Rightarrow> string list) \<Rightarrow> (string \<times> string) list \<Rightarrow> error + corpus" where
  "crawl findall directory =
     (let pages = extract_loop findall directory [] in restrict_loop (keys pages) pages)"

section \<open>Notions used in the statements\<close>

text \<open>
  \<open>settled old_t new_t k\<close>: page \<open>k\<close> passes the convergence test when its rank
  goes from its value in \<open>old_t\<close> to its value in \<open>new_t\<close>.
\<close>

definition settled :: "rat dict \<Rightarrow> rat dict \<Rightarrow> page \<Rightarrow> bool" where
  "settled old_t new_t k =
     (case map_of old_t k of
        None \<Rightarrow> False
      | Some old \<Rightarrow>
          (case map_of new_t k of
             None \<Rightarrow> False
           | Some new \<Rightarrow> \<bar>old - new\<bar> < 1 / 1000))"

text \<open>
  \<open>in_place_table pre old_t new_t\<close>: the table \<open>old_t\<close> in which the pages of
  \<open>pre\<close> already hold their values of \<open>new_t\<close>.
\<close>

definition in_place_table :: "page list \<Rightarrow> rat dict \<Rightarrow> rat dict \<Rightarrow> rat dict" where
  "in_place_table pre old_t new_t =
     map (\<lambda>(q, v). (q, if q \<in> set pre
                          then (case map_of new_t q of None \<Rightarrow> v | Some v' \<Rightarrow> v')
                          else v)) old_t"

text \<open>
  \<open>extracted findall directory\<close>: the dictionary that the first loop of
  \<open>crawl\<close> builds from a directory without repeated file names, in closed form.
\<close>

definition extracted :: "(string \<Rightarrow> string list) \<Rightarrow> (string \<times> string) list \<Rightarrow> corpus" where
  "extracted findall directory =
     map (\<lambda>(f, c). (f, set_minus (set_of_list (findall c)) [f]))
       (filter (\<lambda>(f, c). endswith f ''.html'') directory)"

section \<open>The same functions over a store of Python objects\<close>

text \<open>
  To say that a call leaves the corpus as it was, the corpus must be an object
  that a call could change.  Here the three functions are read again, statement
  by statement, over a store: a list of objects, where the address of an object
  is its index.  A dictionary object maps pages to values, and a value is a
  number or a reference to another object; the corpus is a dictionary whose
  values refer to set objects.  \<open>dict()\<close> and \<open>{}\<close> allocate a new object at the
  end of the store, \<open>d[k] = v\<close> replaces the dictionary at the address that the
  variable \<open>d\<close> holds, and every read goes through the store.  Counters and
  ranks are both numbers.  An address outside the store, or an object of the
  wrong kind, is a \<open>TypeError\<close>.
\<close>

datatype val = Num rat | Ref nat

datatype obj = DictObj "val dict" | SetObj pyset

type_synonym heap = "obj list"

text \<open>Sequencing of steps that may raise, and a \<open>for\<close> loop over a list.\<close>

definition bind :: "error + 'a \<Rightarrow> ('a \<Rightarrow> error + 'b) \<Rightarrow> error + 'b" where
  "bind m f = (case m of Inl e \<Rightarrow> Inl e | Inr x \<Rightarrow> f x)"

fun for_each :: "'a list \<Rightarrow> ('a \<Rightarrow> 's \<Rightarrow> error + 's) \<Rightarrow> 's \<Rightarrow> error + 's" where
  "for_each [] body s = Inr s"
| "for_each (x # xs) body s =
     (case body x s of Inl e \<Rightarrow> Inl e | Inr s' \<Rightarrow> for_each xs body s')"

text \<open>The operations on objects: \<open>d[k]\<close>, \<open>d[k] = v\<close>, iteration, \<open>len\<close>, \<open>in\<close>.\<close>

definition alloc :: "heap \<Rightarrow> obj \<Rightarrow> heap \<times> nat" where
  "alloc h ob = (h @ [ob], length h)"

definition deref :: "heap \<Rightarrow> nat \<Rightarrow> error + obj" where
  "deref h a = (if a < length h then Inr (h ! a) else Inl TypeError)"

definition the_dict :: "heap \<Rightarrow> nat \<Rightarrow> error + val dict" where
  "the_dict h a =
     bind (deref h a) (\<lambda>ob. case ob of DictObj d \<Rightarrow> Inr d | SetObj s \<Rightarrow> Inl TypeError)"

definition h_getitem :: "heap \<Rightarrow> nat \<Rightarrow> page \<Rightarrow> error + val" where
  "h_getitem h a k = bind (the_dict h a) (\<lambda>d. getitem d k)"

definition h_setitem :: "heap \<Rightarrow> nat \<Rightarrow> page \<Rightarrow> val \<Rightarrow> error + heap" where
  "h_setitem h a k v = bind (the_dict h a) (\<lambda>d. Inr (h[a := DictObj (setitem d k v)]))"

definition h_iter :: "heap \<Rightarrow> nat \<Rightarrow> error + page list" where
  "h_iter h a =
     bind (deref h a) (\<lambda>ob. case ob of DictObj d \<Rightarrow> Inr (keys d) | SetObj s \<Rightarrow> Inr s)"

definition h_len :: "heap \<Rightarrow> nat \<Rightarrow> error + nat" where
  "h_len h a = bind (h_iter h a) (\<lambda>xs. Inr (length xs))"

definition h_contains :: "heap \<Rightarrow> nat \<Rightarrow> page \<Rightarrow> error + bool" where
  "h_contains h a k = bind (h_iter h a) (\<lambda>xs. Inr (k \<in> set xs))"

definition the_ref :: "val \<Rightarrow> error + nat" where
  "the_ref v = (case v of Ref a \<Rightarrow> Inr a | Num x \<Rightarrow> Inl TypeError)"

definition the_num :: "val \<Rightarrow> error + rat" where
  "the_num v = (case v of Num x \<Rightarrow> Inr x | Ref a \<Rightarrow> Inl TypeError)"

text \<open>
  \<open>corpus[page]\<close> is the address of a set object.  \<open>h_add_to\<close> is the statement
  \<open>d[k] += rhs\<close>: it reads \<open>d[k]\<close>, evaluates the right-hand side, adds, and
  stores.
\<close>

definition h_lookup_set :: "heap \<Rightarrow> nat \<Rightarrow> page \<Rightarrow> error + nat" where
  "h_lookup_set h corpus page = bind (h_getitem h corpus page) the_ref"

definition h_add_to :: "heap \<Rightarrow> nat \<Rightarrow> page \<Rightarrow> (heap \<Rightarrow> error + rat) \<Rightarrow> error + heap" where
  "h_add_to h a k rhs =
     bind (h_getitem h a k) (\<lambda>old.
     bind (rhs h) (\<lambda>v.
     bind (the_num old) (\<lambda>x. h_setitem h a k (Num (x + v)))))"

text \<open>
  \<open>transition_model\<close>.  The bodies of its loops: \<open>cont[each_page] = num / len(corpus)\<close>
  and \<open>cont[link] += damping_factor / len(corpus[page])\<close>.
\<close>

definition tm_base_step :: "nat \<Rightarrow> nat \<Rightarrow> rat \<Rightarrow> page \<Rightarrow> heap \<Rightarrow> error + heap" where
  "tm_base_step corpus cont num each_page h =
     bind (h_len h corpus) (\<lambda>n.
     bind (truediv num (of_nat n)) (\<lambda>v. h_setitem h cont each_page (Num v)))"

definition tm_link_step :: "nat \<Rightarrow> nat \<Rightarrow> page \<Rightarrow> rat \<Rightarrow> page \<Rightarrow> heap \<Rightarrow> error + heap" where
  "tm_link_step corpus cont page d link h =
     h_add_to h cont link (\<lambda>h.
       bind (h_lookup_set h corpus page) (\<lambda>s.
       bind (h_len h s) (\<lambda>L. truediv d (of_nat L))))"

definition transition_model_h :: "heap \<Rightarrow> nat \<Rightarrow> page \<Rightarrow> rat \<Rightarrow> error + (heap \<times> nat)" where
  "transition_model_h h0 corpus page d =
     (let (h, cont) = alloc h0 (DictObj []) in
      bind (h_lookup_set h corpus page) (\<lambda>s.
      bind (h_len h s) (\<lambda>link_exists.
        if link_exists \<noteq> 0 then
          bind (h_iter h corpus) (\<lambda>pages.
          bind (for_each pages (tm_base_step corpus cont (1 - d)) h) (\<lambda>h.
          bind (h_lookup_set h corpus page) (\<lambda>s.
          bind (h_iter h s) (\<lambda>links.
          bind (for_each links (tm_link_step corpus cont page d) h) (\<lambda>h.
          Inr (h, cont))))))
        else
          bind (h_iter h corpus) (\<lambda>pages.
          bind (for_each pages (tm_base_step corpus cont 1) h) (\<lambda>h.
          Inr (h, cont))))))"

text \<open>
  \<open>sample_pagerank\<close>.  \<open>sample.values()\<close> must be numbers to serve as weights.
  The bodies of its loops: \<open>cont[key] = 0\<close>; one round of sampling, which calls
  \<open>transition_model\<close> and so allocates a new dictionary; and
  \<open>cont[key] = cont[key] / n\<close>.
\<close>

fun nums :: "val list \<Rightarrow> error + rat list" where
  "nums [] = Inr []"
| "nums (v # vs) =
     (case the_num v of
        Inl e \<Rightarrow> Inl e
      | Inr x \<Rightarrow> (case nums vs of Inl e \<Rightarrow> Inl e | Inr xs \<Rightarrow> Inr (x # xs)))"

definition zero_step :: "nat \<Rightarrow> page \<Rightarrow> heap \<Rightarrow> error + heap" where
  "zero_step cont key h = h_setitem h cont key (Num 0)"

definition sample_step ::
  "nat \<Rightarrow> nat \<Rightarrow> rat \<Rightarrow> (nat \<Rightarrow> rat) \<Rightarrow> nat \<Rightarrow> heap \<times> page \<Rightarrow> error + heap \<times> page" where
  "sample_step corpus cont d rnd i st =
     (case st of (h, page) \<Rightarrow>
        bind (transition_model_h h corpus page d) (\<lambda>(h, sample).
        bind (the_dict h sample) (\<lambda>sd.
        bind (nums (map snd sd)) (\<lambda>weights.
        bind (random_choices (rnd i) (keys sd) weights) (\<lambda>page'.
        bind (h_add_to h cont page' (\<lambda>h. Inr 1)) (\<lambda>h.
        Inr (h, page')))))))"

definition divide_step :: "nat \<Rightarrow> int \<Rightarrow> page \<Rightarrow> heap \<Rightarrow> error + heap" where
  "divide_step cont n key h =
     bind (h_getitem h cont key) (\<lambda>c.
     bind (the_num c) (\<lambda>x.
     bind (truediv x (of_int n)) (\<lambda>v. h_setitem h cont key (Num v))))"

definition sample_pagerank_h ::
  "heap \<Rightarrow> nat \<Rightarrow> rat \<Rightarrow> int \<Rightarrow> (nat \<Rightarrow> rat) \<Rightarrow> error + (heap \<times> nat)" where
  "sample_pagerank_h h0 corpus d n rnd =
     (let (h, cont) = alloc h0 (DictObj []) in
      bind (h_iter h corpus) (\<lambda>pages.
      bind (for_each pages (zero_step cont) h) (\<lambda>h.
      bind (h_iter h corpus) (\<lambda>ks.
      bind (random_choice (rnd 0) ks) (\<lambda>page.
      bind (h_add_to h cont page (\<lambda>h. Inr 1)) (\<lambda>h.
      bind (for_each (map Suc [0..<nat n]) (sample_step corpus cont d rnd) (h, page))
        (\<lambda>(h, page).
      bind (h_iter h cont) (\<lambda>ks.
      bind (for_each ks (divide_step cont n) h) (\<lambda>h.
      Inr (h, cont))))))))))"

text \<open>
  \<open>iterate_pagerank\<close>.  The body of the inner loop only reads the store; the
  body of the outer loop ends with \<open>ans[key] = new\<close>.
\<close>

definition sum_step :: "heap \<Rightarrow> nat \<Rightarrow> nat \<Rightarrow> page \<Rightarrow> page \<Rightarrow> rat \<Rightarrow> error + rat" where
  "sum_step h corpus ans key page s =
     bind (h_lookup_set h corpus page) (\<lambda>r.
     bind (h_contains h r key) (\<lambda>c.
       if c then
         bind (h_getitem h ans page) (\<lambda>a.
         bind (the_num a) (\<lambda>x.
         bind (h_lookup_set h corpus page) (\<lambda>r.
         bind (h_len h r) (\<lambda>L.
         bind (truediv x (of_nat L)) (\<lambda>q. Inr (s + q))))))
       else
         bind (h_lookup_set h corpus page) (\<lambda>r.
         bind (h_len h r) (\<lambda>L.
           if L = 0 then
             bind (h_getitem h ans page) (\<lambda>a.
             bind (the_num a) (\<lambda>x.
             bind (h_len h corpus) (\<lambda>n.
             bind (truediv x (of_nat n)) (\<lambda>q. Inr (s + q)))))
           else Inr s))))"

definition pass_step ::
  "nat \<Rightarrow> nat \<Rightarrow> nat \<Rightarrow> rat \<Rightarrow> page \<Rightarrow> heap \<times> nat \<Rightarrow> error + heap \<times> nat" where
  "pass_step corpus ans N d key st =
     (case st of (h, count) \<Rightarrow>
        bind (truediv (1 - d) (of_nat N)) (\<lambda>new0.
        bind (h_iter h corpus) (\<lambda>pages.
        bind (for_each pages (sum_step h corpus ans key) 0) (\<lambda>s.
        let new = new0 + d * s in
        bind (h_getitem h ans key) (\<lambda>old.
        bind (the_num old) (\<lambda>x.
        bind (h_setitem h ans key (Num new)) (\<lambda>h.
        Inr (h, if \<bar>x - new\<bar> < 1 / 1000 then count + 1 else count))))))))"

definition init_step :: "nat \<Rightarrow> nat \<Rightarrow> page \<Rightarrow> heap \<Rightarrow> error + heap" where
  "init_step ans N key h =
     bind (truediv 1 (of_nat N)) (\<lambda>v. h_setitem h ans key (Num v))"

partial_function (option) while_loop_h ::
  "nat \<Rightarrow> nat \<Rightarrow> nat \<Rightarrow> rat \<Rightarrow> heap \<Rightarrow> (error + heap) option" where
  "while_loop_h corpus ans N d h =
     (case bind (h_iter h corpus) (\<lambda>pages. for_each pages (pass_step corpus ans N d) (h, 0)) of
        Inl e \<Rightarrow> Some (Inl e)
      | Inr (h', count) \<Rightarrow>
          if count = N then Some (Inr h') else while_loop_h corpus ans N d h')"

declare while_loop_h.simps [code]

definition iterate_pagerank_h :: "heap \<Rightarrow> nat \<Rightarrow> rat \<Rightarrow> (error + (heap \<times> nat)) option" where
  "iterate_pagerank_h h0 corpus d =
     (let (h, ans) = alloc h0 (DictObj []) in
      case bind (h_len h corpus) (\<lambda>N.
           bind (h_iter h corpus) (\<lambda>pages.
           bind (for_each pages (init_step ans N) h) (\<lambda>h. Inr (N, h)))) of
        Inl e \<Rightarrow> Some (Inl e)
      | Inr (N, h) \<Rightarrow>
          (case while_loop_h corpus ans N d h of
             None \<Rightarrow> None
           | Some (Inl e) \<Rightarrow> Some (Inl e)
           | Some (Inr h') \<Rightarrow> Some (Inr (h', ans))))"

text \<open>
  \<open>extends h0 h\<close>: every object of the store \<open>h0\<close> is in \<open>h\<close>, at the same address
  and unchanged.  \<open>corpus_of h c\<close> is the corpus that the store \<open>h\<close> holds at
  address \<open>c\<close>, as a value of the first model, and \<open>num_dict t\<close> is the table
  \<open>t\<close> as a dictionary object holds it.
\<close>

definition extends :: "heap \<Rightarrow> heap \<Rightarrow> bool" where
  "extends h0 h \<longleftrightarrow> take (length h0) h = h0"

fun sets_of :: "heap \<Rightarrow> val dict \<Rightarrow> corpus option" where
  "sets_of h [] = Some []"
| "sets_of h ((p, v) # rest) =
     (case v of
        Num x \<Rightarrow> None
      | Ref a \<Rightarrow>
          (if a < length h then
             (case h ! a of
                DictObj d \<Rightarrow> None
              | SetObj s \<Rightarrow> map_option (\<lambda>r. (p, s) # r) (sets_of h rest))
           else None))"

definition corpus_of :: "heap \<Rightarrow> nat \<Rightarrow> corpus option" where
  "corpus_of h c =
     (if c < length h then
        (case h ! c of DictObj d \<Rightarrow> sets_of h d | SetObj s \<Rightarrow> None)
      else None)"

definition num_dict :: "rat dict \<Rightarrow> val dict" where
  "num_dict t = map (\<lambda>(k, x). (k, Num x)) t"

text \<open>
  \<open>store_run h a r\<close>: the outcome \<open>r\<close> of a loop of the first model, as the
  loop over the store leaves it: the table it returns is held by the dictionary
  at address \<open>a\<close>.
\<close>

definition store_run :: "heap \<Rightarrow> nat \<Rightarrow> error + rat dict \<Rightarrow> error + heap" where
  "store_run h a r = (case r of Inl e \<Rightarrow> Inl e | Inr t \<Rightarrow> Inr (h[a := DictObj (num_dict t)]))"

section \<open>Dictionary lemmas\<close>

lemma getitem_Inr_iff: "getitem d k = Inr v \<longleftrightarrow> map_of d k = Some v"
  by (simp add: getitem_def split: option.splits)

lemma map_of_setitem: "map_of (setitem d k v) = (map_of d)(k \<mapsto> v)"
  by (simp add: setitem_def update_conv')

lemma keys_setitem_set: "set (keys (setitem d k v)) = insert k (set (keys d))"
  using dom_update [of k v d] by (simp add: keys_def setitem_def)

lemma assign_all_map_of:
  "n \<noteq> 0 \<Longrightarrow> \<exists>cont'. assign_all ps num n cont = Inr cont' \<and>
     set (keys cont') = set ps \<union> set (keys cont) \<and>
     (\<forall>p. map_of cont' p = (if p \<in> set ps then Some (num / of_nat n) else map_of cont p))"
proof (induction ps arbitrary: cont)
  case Nil
  then show ?case by simp
next
  case (Cons q qs)
  from Cons.IH [OF Cons.prems, of "setitem cont q (num / of_nat n)"]
  obtain cont' where
    run: "assign_all qs num n (setitem cont q (num / of_nat n)) = Inr cont'" and
    ks: "set (keys cont') = set qs \<union> set (keys (setitem cont q (num / of_nat n)))" and
    vs: "\<forall>p. map_of cont' p =
           (if p \<in> set qs then Some (num / of_nat n)
            else map_of (setitem cont q (num / of_nat n)) p)"
    by blast
  from Cons.prems run have "assign_all (q # qs) num n cont = Inr cont'"
    by (simp add: truediv_def)
  moreover from ks have "set (keys cont') = set (q # qs) \<union> set (keys cont)"
    by (auto simp: keys_setitem_set)
  moreover from vs have
    "\<forall>p. map_of cont' p = (if p \<in> set (q # qs) then Some (num / of_nat n) else map_of cont p)"
    by (simp add: map_of_setitem)
  ultimately show ?case by blast
qed

lemma mem_keys_iff: "k \<in> set (keys d) \<longleftrightarrow> (\<exists>v. map_of d k = Some v)"
  by (induction d) (auto simp: keys_def)

lemma setitem_fresh: "k \<notin> set (keys d) \<Longrightarrow> setitem d k v = d @ [(k, v)]"
  by (induction d) (auto simp: setitem_def keys_def)

lemma keys_setitem_known: "k \<in> set (keys d) \<Longrightarrow> keys (setitem d k v) = keys d"
  by (induction d) (auto simp: setitem_def keys_def)

lemma assign_all_fresh:
  "n \<noteq> 0 \<Longrightarrow> distinct ps \<Longrightarrow> set ps \<inter> set (keys cont) = {} \<Longrightarrow>
     assign_all ps num n cont = Inr (cont @ map (\<lambda>p. (p, num / of_nat n)) ps)"
proof (induction ps arbitrary: cont)
  case Nil
  then show ?case by simp
next
  case (Cons q qs)
  from Cons.prems have fresh: "q \<notin> set (keys cont)" by auto
  from Cons.prems have "set qs \<inter> set (keys (cont @ [(q, num / of_nat n)])) = {}"
    by (auto simp: keys_def)
  with Cons.IH [of "cont @ [(q, num / of_nat n)]"] Cons.prems
  have "assign_all qs num n (cont @ [(q, num / of_nat n)]) =
          Inr ((cont @ [(q, num / of_nat n)]) @ map (\<lambda>p. (p, num / of_nat n)) qs)"
    by simp
  with Cons.prems fresh show ?case
    by (simp add: truediv_def setitem_fresh)
qed

lemma sum_setitem_add:
  "map_of d k = Some old \<Longrightarrow>
     sum_list (map snd (setitem d k (old + v))) = sum_list (map snd d) + (v :: rat)"
  by (induction d) (auto simp: setitem_def split: if_splits)

lemma add_links_map_of:
  "L \<noteq> 0 \<Longrightarrow> distinct ls \<Longrightarrow> set ls \<subseteq> set (keys cont) \<Longrightarrow>
     \<exists>cont'. add_links ls d L cont = Inr cont' \<and> keys cont' = keys cont \<and>
       (\<forall>p. map_of cont' p =
          (if p \<in> set ls then map_option (\<lambda>x. x + d / of_nat L) (map_of cont p)
           else map_of cont p))"
proof (induction ls arbitrary: cont)
  case Nil
  then show ?case by simp
next
  case (Cons l ls)
  from Cons.prems have "l \<in> set (keys cont)" by simp
  then obtain old where old: "map_of cont l = Some old"
    by (auto simp: mem_keys_iff)
  let ?c = "setitem cont l (old + d / of_nat L)"
  from \<open>l \<in> set (keys cont)\<close> have ks: "keys ?c = keys cont"
    by (rule keys_setitem_known)
  with Cons.prems have "set ls \<subseteq> set (keys ?c)" by simp
  with Cons.IH [of ?c] Cons.prems obtain cont' where
    run: "add_links ls d L ?c = Inr cont'" and
    ks': "keys cont' = keys ?c" and
    vs: "\<forall>p. map_of cont' p =
           (if p \<in> set ls then map_option (\<lambda>x. x + d / of_nat L) (map_of ?c p)
            else map_of ?c p)"
    by auto
  from old run Cons.prems have "add_links (l # ls) d L cont = Inr cont'"
    by (simp add: getitem_def truediv_def)
  moreover from ks ks' have "keys cont' = keys cont" by simp
  moreover from vs old Cons.prems have
    "\<forall>p. map_of cont' p =
       (if p \<in> set (l # ls) then map_option (\<lambda>x. x + d / of_nat L) (map_of cont p)
        else map_of cont p)"
    by (auto simp: map_of_setitem)
  ultimately show ?case by blast
qed

lemma add_links_sum:
  "L \<noteq> 0 \<Longrightarrow> add_links ls d L cont = Inr cont' \<Longrightarrow>
     sum_list (map snd cont') = sum_list (map snd cont) + of_nat (length ls) * (d / of_nat L)"
proof (induction ls arbitrary: cont)
  case Nil
  then show ?case by simp
next
  case (Cons l ls)
  from Cons.prems obtain old where
    old: "map_of cont l = Some old" and
    run: "add_links ls d L (setitem cont l (old + d / of_nat L)) = Inr cont'"
    by (auto simp: getitem_def truediv_def split: option.splits)
  from Cons.IH [OF Cons.prems(1) run] sum_setitem_add [OF old, of "d / of_nat L"]
  show ?case by (simp add: algebra_simps)
qed

lemma wf_corpus_links:
  assumes "wf_corpus corpus" and "getitem corpus page = Inr links"
  shows "distinct links" and "set links \<subseteq> set (keys corpus)"
proof -
  from assms(2) have "(page, links) \<in> set corpus"
    by (simp add: getitem_Inr_iff map_of_SomeD)
  with assms(1) have "distinct links \<and> list_all (\<lambda>l. l \<in> set (keys corpus)) links"
    by (auto simp: wf_corpus_def list_all_iff)
  then show "distinct links" and "set links \<subseteq> set (keys corpus)"
    by (auto simp: list_all_iff)
qed

lemma getitem_nonempty: "getitem d k = Inr v \<Longrightarrow> length d \<noteq> 0"
  by (cases d) (auto simp: getitem_def)

lemma getitem_mem_keys: "getitem d k = Inr v \<Longrightarrow> k \<in> set (keys d)"
  by (auto simp: getitem_Inr_iff mem_keys_iff)

section \<open>Properties of transition_model\<close>

text \<open>
  Claim C4.  When the outbound set of \<open>page\<close> is empty, \<open>transition_model\<close>
  returns a distribution whose pages are exactly the pages of the corpus, and
  every one of them, the sink itself included, has probability \<open>1 / N\<close>, whatever
  the damping factor is.
\<close>

theorem transition_model_sink:
  assumes "getitem corpus page = Inr []"
  shows "\<exists>cont. transition_model corpus page d = Inr cont \<and>
           set (keys cont) = set (keys corpus) \<and>
           getitem cont page = Inr (1 / of_nat (length corpus)) \<and>
           (\<forall>p \<in> set (keys corpus). getitem cont p = Inr (1 / of_nat (length corpus)))"
proof -
  from assms have n: "length corpus \<noteq> 0" by (rule getitem_nonempty)
  from assms have mem: "page \<in> set (keys corpus)" by (rule getitem_mem_keys)
  from assign_all_map_of [OF n, of "keys corpus" 1 "[]"] obtain cont where
    run: "assign_all (keys corpus) 1 (length corpus) [] = Inr cont" and
    ks: "set (keys cont) = set (keys corpus) \<union> set (keys ([] :: rat dict))" and
    vs: "\<forall>p. map_of cont p =
           (if p \<in> set (keys corpus) then Some (1 / of_nat (length corpus)) else map_of [] p)"
    by blast
  from assms run have "transition_model corpus page d = Inr cont"
    by (simp add: transition_model_def)
  moreover from ks have "set (keys cont) = set (keys corpus)"
    by (simp add: keys_def)
  moreover from vs have
    all: "\<forall>p \<in> set (keys corpus). getitem cont p = Inr (1 / of_nat (length corpus))"
    by (simp add: getitem_Inr_iff)
  moreover from all mem have "getitem cont page = Inr (1 / of_nat (length corpus))"
    by blast
  ultimately show ?thesis by blast
qed

theorem transition_model_sink_witness:
  "getitem [(''A'', [''B'']), (''B'', [])] ''B'' = Inr [] \<and>
   (\<exists>cont. transition_model [(''A'', [''B'']), (''B'', [])] ''B'' (17 / 20) = Inr cont \<and>
      getitem cont ''A'' = Inr (1 / 2) \<and> getitem cont ''B'' = Inr (1 / 2))"
proof -
  have h: "getitem [(''A'', [''B'']), (''B'', [])] ''B'' = Inr []"
    by (simp add: getitem_def)
  from transition_model_sink [OF h, of "17 / 20"] h show ?thesis
    by (auto simp: keys_def)
qed

text \<open>
  Claim C5.  When the outbound set of \<open>page\<close> has \<open>L > 0\<close> elements,
  \<open>transition_model\<close> returns a distribution whose pages are exactly the pages
  of the corpus; a page outside the outbound set has probability \<open>(1 - d) / N\<close>,
  a page inside it has \<open>(1 - d) / N + d / L\<close>.
\<close>

theorem transition_model_links:
  assumes "wf_corpus corpus" and "getitem corpus page = Inr links" and "links \<noteq> []"
  shows "\<exists>cont. transition_model corpus page d = Inr cont \<and>
           keys cont = keys corpus \<and>
           (\<forall>p \<in> set (keys corpus). getitem cont p =
              Inr ((1 - d) / of_nat (length corpus) +
                   (if p \<in> set links then d / of_nat (length links) else 0)))"
proof -
  from assms(2) have n: "length corpus \<noteq> 0" by (rule getitem_nonempty)
  from assms(3) have l: "length links \<noteq> 0" by simp
  from assms(1) have dk: "distinct (keys corpus)" by (simp add: wf_corpus_def)
  from wf_corpus_links [OF assms(1,2)] have
    dl: "distinct links" and sub: "set links \<subseteq> set (keys corpus)"
    by blast+
  let ?base = "map (\<lambda>p. (p, (1 - d) / of_nat (length corpus))) (keys corpus)"
  from assign_all_fresh [OF n dk, of "[]" "1 - d"] have
    base: "assign_all (keys corpus) (1 - d) (length corpus) [] = Inr ?base"
    by (simp add: keys_def)
  have kb: "keys ?base = keys corpus"
    by (simp add: keys_def comp_def)
  have vb: "\<forall>p. map_of ?base p =
              (if p \<in> set (keys corpus) then Some ((1 - d) / of_nat (length corpus)) else None)"
    by (simp add: map_of_map_restrict restrict_map_def)
  from sub kb have "set links \<subseteq> set (keys ?base)" by simp
  from add_links_map_of [OF l dl this, of d] obtain cont where
    run: "add_links links d (length links) ?base = Inr cont" and
    ks: "keys cont = keys ?base" and
    vs: "\<forall>p. map_of cont p =
           (if p \<in> set links
            then map_option (\<lambda>x. x + d / of_nat (length links)) (map_of ?base p)
            else map_of ?base p)"
    by blast
  from assms(2) l base run have "transition_model corpus page d = Inr cont"
    by (simp add: transition_model_def)
  moreover from ks kb have "keys cont = keys corpus" by simp
  moreover from vs vb have
    "\<forall>p \<in> set (keys corpus). getitem cont p =
       Inr ((1 - d) / of_nat (length corpus) +
            (if p \<in> set links then d / of_nat (length links) else 0))"
    by (simp add: getitem_Inr_iff)
  ultimately show ?thesis by blast
qed

theorem transition_model_links_witness:
  "wf_corpus [(''A'', [''B'']), (''B'', [])] \<and>
   getitem [(''A'', [''B'']), (''B'', [])] ''A'' = Inr [''B''] \<and> [''B''] \<noteq> [] \<and>
   (\<exists>cont. transition_model [(''A'', [''B'']), (''B'', [])] ''A'' (17 / 20) = Inr cont \<and>
      getitem cont ''A'' = Inr (3 / 40) \<and> getitem cont ''B'' = Inr (37 / 40))"
proof -
  have w: "wf_corpus [(''A'', [''B'']), (''B'', [])]"
    by (simp add: wf_corpus_def keys_def)
  have h: "getitem [(''A'', [''B'']), (''B'', [])] ''A'' = Inr [''B'']"
    by (simp add: getitem_def)
  from transition_model_links [OF w h, of "17 / 20"] w h show ?thesis
    by (auto simp: keys_def)
qed

text \<open>
  Claim C6.  For a page of a well-formed corpus the probabilities that
  \<open>transition_model\<close> assigns add up to 1 (so to 1 within \<open>1e-9\<close>), for every
  damping factor.  The model has no normalisation step: the sum is that of the
  values as the two loops assign them.  Arithmetic is exact here; the rounding
  of floating-point operations is outside the model.
\<close>

theorem transition_model_sums_to_one:
  assumes "wf_corpus corpus" and "page \<in> set (keys corpus)"
  shows "\<exists>cont. transition_model corpus page d = Inr cont \<and>
           sum_list (map snd cont) = 1 \<and>
           \<bar>sum_list (map snd cont) - 1\<bar> \<le> 1 / 10 ^ 9"
proof -
  from assms(2) obtain links where g: "getitem corpus page = Inr links"
    by (auto simp: mem_keys_iff getitem_Inr_iff)
  from g have n: "length corpus \<noteq> 0" by (rule getitem_nonempty)
  from assms(1) have dk: "distinct (keys corpus)" by (simp add: wf_corpus_def)
  have len: "length (keys corpus) = length corpus" by (simp add: keys_def)
  have base: "assign_all (keys corpus) num (length corpus) [] =
                Inr (map (\<lambda>p. (p, num / of_nat (length corpus))) (keys corpus))" for num
    using assign_all_fresh [OF n dk, of "[]" num] by (simp add: keys_def)
  have base_sum:
    "sum_list (map snd (map (\<lambda>p. (p, num / of_nat (length corpus))) (keys corpus))) = num"
    for num :: rat
    using n len by (simp add: comp_def sum_list_triv)
  show ?thesis
  proof (cases "links = []")
    case True
    with g base [of 1] have
      "transition_model corpus page d =
         Inr (map (\<lambda>p. (p, 1 / of_nat (length corpus))) (keys corpus))"
      by (simp add: transition_model_def)
    with base_sum [of 1] show ?thesis by simp
  next
    case False
    then have l: "length links \<noteq> 0" by simp
    from transition_model_links [OF assms(1) g False, of d] obtain cont where
      run: "transition_model corpus page d = Inr cont"
      by blast
    with g l base [of "1 - d"] have
      "add_links links d (length links)
         (map (\<lambda>p. (p, (1 - d) / of_nat (length corpus))) (keys corpus)) = Inr cont"
      by (simp add: transition_model_def)
    from add_links_sum [OF l this] base_sum [of "1 - d"] l
    have "sum_list (map snd cont) = 1" by simp
    with run show ?thesis by simp
  qed
qed

theorem transition_model_sums_to_one_witness:
  "wf_corpus [(''A'', [''B'']), (''B'', [])] \<and> ''A'' \<in> set (keys [(''A'', [''B'']), (''B'', [])]) \<and>
   (\<exists>cont. transition_model [(''A'', [''B'']), (''B'', [])] ''A'' (17 / 20) = Inr cont \<and>
      sum_list (map snd cont) = 1)"
proof -
  have w: "wf_corpus [(''A'', [''B'']), (''B'', [])]"
    by (simp add: wf_corpus_def keys_def)
  have m: "''A'' \<in> set (keys [(''A'', [''B'']), (''B'', [])])"
    by (simp add: keys_def)
  from transition_model_sums_to_one [OF w m, of "17 / 20"] w m show ?thesis
    by blast
qed

section \<open>Properties of sample_pagerank\<close>

lemma sum_setitem_incr:
  "map_of d k = Some old \<Longrightarrow>
     sum_list (map snd (setitem d k (old + v))) = sum_list (map snd d) + (v :: int)"
  by (induction d) (auto simp: setitem_def split: if_splits)

lemma set_setitem_subset: "set (setitem d k v) \<subseteq> insert (k, v) (set d)"
  by (induction d) (auto simp: setitem_def)

lemma zero_all_zero:
  "\<forall>x \<in> set cont. snd x = 0 \<Longrightarrow> \<forall>x \<in> set (zero_all ks cont). snd x = 0"
proof (induction ks arbitrary: cont)
  case Nil
  then show ?case by simp
next
  case (Cons k ks)
  from Cons.prems set_setitem_subset [of cont k 0]
  have "\<forall>x \<in> set (setitem cont k 0). snd x = 0" by auto
  from Cons.IH [OF this] show ?case by simp
qed

lemma sum_list_all_zero: "\<forall>v \<in> set xs. v = 0 \<Longrightarrow> sum_list xs = (0 :: int)"
  by (induction xs) auto

lemma zero_all_sum: "sum_list (map snd (zero_all ks [])) = 0"
proof -
  from zero_all_zero [of "[]" ks] have "\<forall>x \<in> set (zero_all ks []). snd x = 0"
    by simp
  then have "\<forall>v \<in> set (map snd (zero_all ks [])). v = 0" by auto
  then show ?thesis by (rule sum_list_all_zero)
qed

lemma sample_loop_sum:
  "sample_loop corpus d rnd i k page cont = Inr cont' \<Longrightarrow>
     sum_list (map snd cont') = sum_list (map snd cont) + int k"
proof (induction k arbitrary: i page cont)
  case 0
  then show ?case by simp
next
  case (Suc k)
  from Suc.prems obtain page' c where
    c: "map_of cont page' = Some c" and
    run: "sample_loop corpus d rnd (Suc i) k page' (setitem cont page' (c + 1)) = Inr cont'"
    by (auto simp: getitem_def split: sum.splits option.splits)
  from Suc.IH [OF run] sum_setitem_incr [OF c, of 1] show ?case by simp
qed

lemma divide_all_sum:
  "n \<noteq> 0 \<Longrightarrow> divide_all cont n = Inr r \<Longrightarrow>
     sum_list (map snd r) = of_int (sum_list (map snd cont)) / of_int n"
proof (induction cont arbitrary: r)
  case Nil
  then show ?case by simp
next
  case (Cons x cont)
  obtain key c where x: "x = (key, c)" by (cases x)
  from Cons.prems x obtain r' where
    r: "r = (key, of_int c / of_int n) # r'" and run: "divide_all cont n = Inr r'"
    by (auto simp: truediv_def split: sum.splits)
  from Cons.IH [OF Cons.prems(1) run] r x Cons.prems(1) show ?case
    by (simp add: add_divide_distrib)
qed

text \<open>
  Whenever \<open>sample_pagerank\<close> returns for \<open>n \<ge> 1\<close>, the counters add up to
  \<open>n + 1\<close>: one for the starting page and one for each of the \<open>n\<close> rounds.  The
  returned values therefore add up to \<open>(n + 1) / n\<close>.
\<close>

lemma sample_pagerank_sum:
  assumes "1 \<le> n" and "sample_pagerank corpus d n rnd = Inr r"
  shows "sum_list (map snd r) = (of_int n + 1) / of_int n"
proof -
  let ?zero = "zero_all (keys corpus) []"
  from assms(2) obtain page c cont' where
    c: "map_of ?zero page = Some c" and
    loop: "sample_loop corpus d rnd 1 (nat n) page (setitem ?zero page (c + 1)) = Inr cont'" and
    fin: "divide_all cont' n = Inr r"
    by (auto simp: sample_pagerank_def Let_def getitem_def split: sum.splits option.splits)
  from sum_setitem_incr [OF c, of 1] zero_all_sum [of "keys corpus"]
  have "sum_list (map snd (setitem ?zero page (c + 1))) = 1" by simp
  with sample_loop_sum [OF loop] assms(1)
  have "sum_list (map snd cont') = n + 1" by simp
  with divide_all_sum [OF _ fin] assms(1) show ?thesis by simp
qed

text \<open>
  Claim C2.  The returned values do not add up to 1.  On the corpus with the
  single page \<open>A\<close> and \<open>n = 1\<close> the counter of \<open>A\<close> is incremented for the
  starting page and again for the one sample, and the result is \<open>A: 2.0\<close>,
  whatever the random source draws.
\<close>

theorem sample_pagerank_single_page:
  "sample_pagerank [(''A'', [])] (17 / 20) 1 rnd = Inr [(''A'', 2)]"
  by (simp add: sample_pagerank_def transition_model_def random_choice_def random_choices_def
      getitem_def setitem_def truediv_def keys_def)

section \<open>Runs of iterate_pagerank on concrete corpora\<close>

lemma iterate_pagerank_sink_pair:
  "iterate_pagerank [(''A'', [''B'']), (''B'', [])] (17 / 20) =
     Some (Inr [(''A'', 982792195861503836557491421472725869182257627 /
                       2814749767106560000000000000000000000000000000),
                (''B'', 36363311246875641952627182594490857159743532199 /
                       56294995342131200000000000000000000000000000000)])"
  by (simp add: iterate_pagerank_def while_loop.simps getitem_def setitem_def truediv_def keys_def)


text \<open>
  The ranks that the run on \<open>{A: {B}, B: {}}\<close> returns add up to about 0.9951,
  not to 1.
\<close>

lemma iterate_pagerank_sink_pair_sum:
  "\<exists>ans. iterate_pagerank [(''A'', [''B'']), (''B'', [])] (17 / 20) = Some (Inr ans) \<and>
         sum_list (map snd ans) < 996 / 1000"
proof -
  have "sum_list (map snd
          [(''A'', 982792195861503836557491421472725869182257627 /
                       2814749767106560000000000000000000000000000000 :: rat),
           (''B'', 36363311246875641952627182594490857159743532199 /
                       56294995342131200000000000000000000000000000000)]) < 996 / 1000"
    by simp
  with iterate_pagerank_sink_pair show ?thesis by blast
qed



section \<open>Properties of one pass of iterate_pagerank\<close>

lemma sum_loop_cong_table:
  "\<forall>q. map_of t1 q = map_of t2 q \<Longrightarrow> sum_loop corpus t1 key ps s = sum_loop corpus t2 key ps s"
  by (induction ps arbitrary: s) (auto simp: getitem_def split: sum.splits option.splits)

lemma pass_loop_frame:
  "pass_loop corpus d ks ans c = Inr (ans', c') \<Longrightarrow> q \<notin> set ks \<Longrightarrow> map_of ans' q = map_of ans q"
proof (induction ks arbitrary: ans c)
  case Nil
  then show ?case by simp
next
  case (Cons k ks)
  from Cons.prems(1) obtain new c1 where
    run: "pass_loop corpus d ks (setitem ans k new) c1 = Inr (ans', c')"
    by (auto simp: Let_def split: sum.splits if_splits)
  from Cons.IH [OF run] Cons.prems(2) show ?case
    by (simp add: map_of_setitem)
qed

lemma pass_loop_keys:
  "pass_loop corpus d ks ans c = Inr (ans', c') \<Longrightarrow> keys ans' = keys ans"
proof (induction ks arbitrary: ans c)
  case Nil
  then show ?case by simp
next
  case (Cons k ks)
  from Cons.prems(1) obtain new c1 old where
    old: "getitem ans k = Inr old" and
    run: "pass_loop corpus d ks (setitem ans k new) c1 = Inr (ans', c')"
    by (auto simp: Let_def split: sum.splits if_splits)
  from Cons.IH [OF run] keys_setitem_known [OF getitem_mem_keys [OF old]] show ?case
    by simp
qed

lemma pass_loop_append:
  "pass_loop corpus d (xs @ ys) ans c =
     (case pass_loop corpus d xs ans c of
        Inl e \<Rightarrow> Inl e
      | Inr (a, c1) \<Rightarrow> pass_loop corpus d ys a c1)"
  by (induction xs arbitrary: ans c) (auto simp: Let_def split: sum.splits)


lemma pass_loop_count:
  "pass_loop corpus d ks ans c = Inr (ans', c') \<Longrightarrow> distinct ks \<Longrightarrow>
     c' = c + length (filter (settled ans ans') ks)"
proof (induction ks arbitrary: ans c)
  case Nil
  then show ?case by simp
next
  case (Cons k ks)
  from Cons.prems(1) obtain new old where
    old: "map_of ans k = Some old" and
    run: "pass_loop corpus d ks (setitem ans k new)
            (if \<bar>old - new\<bar> < 1 / 1000 then c + 1 else c) = Inr (ans', c')"
    by (auto simp: Let_def getitem_Inr_iff split: sum.splits)
  from Cons.prems(2) have k: "k \<notin> set ks" and dk: "distinct ks" by simp_all
  from pass_loop_frame [OF run k] have new: "map_of ans' k = Some new"
    by (simp add: map_of_setitem)
  from old new have here: "settled ans ans' k \<longleftrightarrow> \<bar>old - new\<bar> < 1 / 1000"
    by (simp add: settled_def)
  from k have "filter (settled (setitem ans k new) ans') ks = filter (settled ans ans') ks"
    by (intro filter_cong) (auto simp: settled_def map_of_setitem)
  with Cons.IH [OF run dk] here show ?case by simp
qed

lemma map_of_in_place_table:
  "map_of (in_place_table pre old_t new_t) q =
     map_option (\<lambda>v. if q \<in> set pre
                      then (case map_of new_t q of None \<Rightarrow> v | Some v' \<Rightarrow> v')
                      else v) (map_of old_t q)"
  by (induction old_t) (auto simp: in_place_table_def split: option.splits)

lemma same_keys_map_of:
  "keys a = keys b \<Longrightarrow> map_of a q = None \<longleftrightarrow> map_of b q = None"
  by (metis mem_keys_iff not_Some_eq)

text \<open>
  Claim C1.  The code does not do what the claim says.  On the corpus
  \<open>{A: {B}, B: {}}\<close> with damping 0.85 the first pass, started from the initial
  table \<open>A: 1/2, B: 1/2\<close>, computes the new rank of \<open>B\<close> from the rank of \<open>A\<close>
  that the same pass has just stored: the result is \<open>851/1600\<close>, and the two
  ranks add up to \<open>1311/1600\<close>.  A pass over a snapshot of the previous ranks
  gives \<open>57/80\<close> for \<open>B\<close>, and ranks that add up to 1.
\<close>

theorem pass_loop_not_snapshot:
  "pass_loop [(''A'', [''B'']), (''B'', [])] (17 / 20) (keys [(''A'', [''B'']), (''B'', [])])
     [(''A'', 1 / 2), (''B'', 1 / 2)] 0 = Inr ([(''A'', 23 / 80), (''B'', 851 / 1600)], 0) \<and>
   spec_snapshot_pass [(''A'', [''B'']), (''B'', [])] (17 / 20)
     [(''A'', 1 / 2), (''B'', 1 / 2)] = Inr ([(''A'', 23 / 80), (''B'', 57 / 80)], 0) \<and>
   pass_loop [(''A'', [''B'']), (''B'', [])] (17 / 20) (keys [(''A'', [''B'']), (''B'', [])])
     [(''A'', 1 / 2), (''B'', 1 / 2)] 0 \<noteq>
   spec_snapshot_pass [(''A'', [''B'']), (''B'', [])] (17 / 20) [(''A'', 1 / 2), (''B'', 1 / 2)]"
  by (simp add: spec_snapshot_pass_def getitem_def setitem_def truediv_def keys_def)

text \<open>
  What a pass of the code computes.  It updates the one table in place.  When
  the pass reaches \<open>key\<close>, the pages \<open>pre\<close> that come before it in the order of
  the corpus already hold the values of this pass and all other pages still
  hold the values from before the pass: the sum for \<open>key\<close> is taken over that
  mixed table, and the new rank of \<open>key\<close> is \<open>(1 - d) / N + d * s\<close> for that sum
  \<open>s\<close>.  The convergence test compares the new rank of each page with the rank
  it had before the pass began, and \<open>count\<close> is the number of pages that pass it.
\<close>

theorem pass_loop_in_place:
  assumes "distinct (keys corpus)"
    and "keys corpus = pre @ key # post"
    and "pass_loop corpus d (keys corpus) ans 0 = Inr (ans', count)"
  shows "\<exists>s. sum_loop corpus (in_place_table pre ans ans') key (keys corpus) 0 = Inr s \<and>
           getitem ans' key = Inr ((1 - d) / of_nat (length corpus) + d * s) \<and>
           count = length (filter (settled ans ans') (keys corpus))"
proof -
  from assms(1,2) have dpre: "key \<notin> set pre" and dpost: "key \<notin> set post"
    and disj: "\<forall>q \<in> set pre. q \<notin> set (key # post)"
    by auto
  from assms(2,3) obtain am cm where
    first: "pass_loop corpus d pre ans 0 = Inr (am, cm)" and
    rest: "pass_loop corpus d (key # post) am cm = Inr (ans', count)"
    by (auto simp: pass_loop_append split: sum.splits)
  from rest obtain s old c1 where
    s: "sum_loop corpus am key (keys corpus) 0 = Inr s" and
    tail: "pass_loop corpus d post
             (setitem am key ((1 - d) / of_nat (length corpus) + d * s)) c1 = Inr (ans', count)"
    by (auto simp: Let_def truediv_def split: sum.splits if_splits)
  from pass_loop_frame [OF tail dpost]
  have new: "getitem ans' key = Inr ((1 - d) / of_nat (length corpus) + d * s)"
    by (simp add: getitem_Inr_iff map_of_setitem)
  have k1: "keys am = keys ans" using first by (rule pass_loop_keys)
  have k2: "keys ans' = keys am" using rest by (rule pass_loop_keys)
  have "map_of (in_place_table pre ans ans') q = map_of am q" for q
  proof (cases "q \<in> set pre")
    case True
    with disj have "q \<notin> set (key # post)" by blast
    from pass_loop_frame [OF rest this] have eq: "map_of ans' q = map_of am q" .
    show ?thesis
    proof (cases "map_of ans q")
      case None
      with same_keys_map_of [OF k1, of q] show ?thesis
        by (simp add: map_of_in_place_table)
    next
      case (Some v)
      with same_keys_map_of [OF k1, of q] obtain v' where "map_of am q = Some v'"
        by auto
      with eq Some True show ?thesis
        by (simp add: map_of_in_place_table)
    qed
  next
    case False
    from pass_loop_frame [OF first False] False show ?thesis
      by (cases "map_of ans q") (simp_all add: map_of_in_place_table)
  qed
  then have "\<forall>q. map_of (in_place_table pre ans ans') q = map_of am q" by blast
  from sum_loop_cong_table [OF this] s
  have "sum_loop corpus (in_place_table pre ans ans') key (keys corpus) 0 = Inr s"
    by simp
  moreover from pass_loop_count [OF assms(3,1)]
  have "count = length (filter (settled ans ans') (keys corpus))" by simp
  ultimately show ?thesis using new by blast
qed

theorem pass_loop_in_place_witness:
  "distinct (keys [(''A'', [''B'']), (''B'', [])]) \<and>
   keys [(''A'', [''B'']), (''B'', [])] = [''A''] @ ''B'' # [] \<and>
   pass_loop [(''A'', [''B'']), (''B'', [])] (17 / 20) (keys [(''A'', [''B'']), (''B'', [])])
     [(''A'', 1 / 2), (''B'', 1 / 2)] 0 = Inr ([(''A'', 23 / 80), (''B'', 851 / 1600)], 0) \<and>
   (\<exists>s. sum_loop [(''A'', [''B'']), (''B'', [])]
          (in_place_table [''A''] [(''A'', 1 / 2), (''B'', 1 / 2)]
             [(''A'', 23 / 80), (''B'', 851 / 1600)])
          ''B'' (keys [(''A'', [''B'']), (''B'', [])]) 0 = Inr s \<and>
        getitem [(''A'', 23 / 80), (''B'', 851 / 1600)] ''B'' =
          Inr ((1 - 17 / 20) / of_nat (length [(''A'', [''B'']), (''B'', [])]) + 17 / 20 * s))"
proof -
  have h1: "distinct (keys [(''A'', [''B'']), (''B'', [])])"
    by (simp add: keys_def)
  have h2: "keys [(''A'', [''B'']), (''B'', [])] = [''A''] @ ''B'' # []"
    by (simp add: keys_def)
  have h3: "pass_loop [(''A'', [''B'']), (''B'', [])] (17 / 20)
              (keys [(''A'', [''B'']), (''B'', [])]) [(''A'', 1 / 2), (''B'', 1 / 2)] 0 =
            Inr ([(''A'', 23 / 80), (''B'', 851 / 1600)], 0)"
    by (simp add: getitem_def setitem_def truediv_def keys_def)
  from pass_loop_in_place [OF h1 h2 h3] h1 h2 h3 show ?thesis
    by blast
qed

section \<open>Properties of the run of iterate_pagerank\<close>

lemma filter_all_length:
  "length (filter P xs) = length xs \<Longrightarrow> \<forall>x \<in> set xs. P x"
  by (metis length_filter_less less_irrefl)

lemma while_loop_last_pass_aux:
  "while_loop corpus d ans = Some y \<Longrightarrow>
     \<forall>r. y = Inr r \<longrightarrow>
       (\<exists>prev. pass_loop corpus d (keys corpus) prev 0 = Inr (r, length corpus))"
  by (rule while_loop.raw_induct
        [where P = "\<lambda>corpus d ans y. \<forall>r. y = Inr r \<longrightarrow>
           (\<exists>prev. pass_loop corpus d (keys corpus) prev 0 = Inr (r, length corpus))"])
     (auto split: sum.splits prod.splits if_splits)

lemma while_loop_last_pass:
  "while_loop corpus d ans = Some (Inr r) \<Longrightarrow>
     \<exists>prev. pass_loop corpus d (keys corpus) prev 0 = Inr (r, length corpus)"
  using while_loop_last_pass_aux by blast

lemma while_loop_keys_aux:
  "while_loop corpus d ans = Some y \<Longrightarrow> \<forall>r. y = Inr r \<longrightarrow> keys r = keys ans"
  by (rule while_loop.raw_induct
        [where P = "\<lambda>corpus d ans y. \<forall>r. y = Inr r \<longrightarrow> keys r = keys ans"])
     (auto split: sum.splits prod.splits if_splits dest: pass_loop_keys)

lemma while_loop_keys:
  "while_loop corpus d ans = Some (Inr r) \<Longrightarrow> keys r = keys ans"
  using while_loop_keys_aux by blast

lemma iterate_pagerank_five_pages:
  "iterate_pagerank
     [(''A'', [''B'', ''E'']), (''B'', []), (''C'', [''A'', ''D'']), (''D'', [''B'']), (''E'', [])] (17 / 20) =
   Some (Inr [(''A'', 111744665688833 / 640000000000000),
           (''B'', 8843457305939511 / 25600000000000000),
           (''C'', 313009758036323687 / 2560000000000000000),
           (''D'', 17841556208070450159 / 102400000000000000000),
           (''E'', 502975689707339787 / 2560000000000000000)])"
  by (simp add: iterate_pagerank_def while_loop.simps getitem_def setitem_def truediv_def keys_def)

lemma pass_loop_five_pages:
  "pass_loop
     [(''A'', [''B'', ''E'']), (''B'', []), (''C'', [''A'', ''D'']), (''D'', [''B'']), (''E'', [])] (17 / 20)
     (keys [(''A'', [''B'', ''E'']), (''B'', []), (''C'', [''A'', ''D'']), (''D'', [''B'']), (''E'', [])])
     [(''A'', 111744665688833 / 640000000000000),
           (''B'', 8843457305939511 / 25600000000000000),
           (''C'', 313009758036323687 / 2560000000000000000),
           (''D'', 17841556208070450159 / 102400000000000000000),
           (''E'', 502975689707339787 / 2560000000000000000)] 0 =
   Inr ([(''A'', 89134757723331403553 / 512000000000000000000),
           (''B'', 7049512568278365993751 / 20480000000000000000000),
           (''C'', 249686407460930432925767 / 2048000000000000000000000),
           (''D'', 14232125225273034676768719 / 81920000000000000000000000),
           (''E'', 401215495590593818965867 / 2048000000000000000000000)], 4)"
  by (simp add: getitem_def setitem_def truediv_def keys_def)

text \<open>
  Claim C8, as stated, fails.  On the five-page corpus
  \<open>{A: {B, E}, B: {}, C: {A, D}, D: {B}, E: {}}\<close> with damping 0.85 the run
  ends after three passes; one more pass over the table it returned moves the
  rank of \<open>B\<close> by more than 0.001 (by about 0.00123).
\<close>

theorem iterate_pagerank_extra_pass_moves:
  "iterate_pagerank
     [(''A'', [''B'', ''E'']), (''B'', []), (''C'', [''A'', ''D'']), (''D'', [''B'']), (''E'', [])] (17 / 20) =
   Some (Inr [(''A'', 111744665688833 / 640000000000000),
           (''B'', 8843457305939511 / 25600000000000000),
           (''C'', 313009758036323687 / 2560000000000000000),
           (''D'', 17841556208070450159 / 102400000000000000000),
           (''E'', 502975689707339787 / 2560000000000000000)]) \<and>
   pass_loop
     [(''A'', [''B'', ''E'']), (''B'', []), (''C'', [''A'', ''D'']), (''D'', [''B'']), (''E'', [])] (17 / 20)
     (keys [(''A'', [''B'', ''E'']), (''B'', []), (''C'', [''A'', ''D'']), (''D'', [''B'']), (''E'', [])])
     [(''A'', 111744665688833 / 640000000000000),
           (''B'', 8843457305939511 / 25600000000000000),
           (''C'', 313009758036323687 / 2560000000000000000),
           (''D'', 17841556208070450159 / 102400000000000000000),
           (''E'', 502975689707339787 / 2560000000000000000)] 0 =
   Inr ([(''A'', 89134757723331403553 / 512000000000000000000),
           (''B'', 7049512568278365993751 / 20480000000000000000000),
           (''C'', 249686407460930432925767 / 2048000000000000000000000),
           (''D'', 14232125225273034676768719 / 81920000000000000000000000),
           (''E'', 401215495590593818965867 / 2048000000000000000000000)], 4) \<and>
   1 / 1000 < \<bar>7049512568278365993751 / 20480000000000000000000 - 8843457305939511 / 25600000000000000 :: rat\<bar>"
  using iterate_pagerank_five_pages pass_loop_five_pages by simp

text \<open>
  Claim C8, amended.  When \<open>iterate_pagerank\<close> returns a table, that table is
  the result of a pass in which every page passed the convergence test: the
  last pass the run performed changed no rank by 0.001 or more.
\<close>

theorem iterate_pagerank_last_pass:
  assumes "distinct (keys corpus)" and "iterate_pagerank corpus d = Some (Inr ans)"
  shows "\<exists>prev. pass_loop corpus d (keys corpus) prev 0 = Inr (ans, length corpus) \<and>
           (\<forall>p \<in> set (keys corpus). settled prev ans p)"
proof -
  from assms(2) obtain init where "while_loop corpus d init = Some (Inr ans)"
    by (auto simp: iterate_pagerank_def split: sum.splits)
  from while_loop_last_pass [OF this] obtain prev where
    run: "pass_loop corpus d (keys corpus) prev 0 = Inr (ans, length corpus)"
    by blast
  from pass_loop_count [OF run assms(1)]
  have "length (filter (settled prev ans) (keys corpus)) = length (keys corpus)"
    by (simp add: keys_def)
  from filter_all_length [OF this] run show ?thesis by blast
qed

theorem iterate_pagerank_last_pass_witness:
  "distinct (keys [(''A'', [''B'']), (''B'', [])]) \<and>
   iterate_pagerank [(''A'', [''B'']), (''B'', [])] (17 / 20) =
     Some (Inr [(''A'', 982792195861503836557491421472725869182257627 /
                 2814749767106560000000000000000000000000000000),
          (''B'', 36363311246875641952627182594490857159743532199 /
                 56294995342131200000000000000000000000000000000)]) \<and>
   (\<exists>prev. pass_loop [(''A'', [''B'']), (''B'', [])] (17 / 20) (keys [(''A'', [''B'']), (''B'', [])]) prev 0 =
            Inr ([(''A'', 982792195861503836557491421472725869182257627 /
                 2814749767106560000000000000000000000000000000),
          (''B'', 36363311246875641952627182594490857159743532199 /
                 56294995342131200000000000000000000000000000000)],
                 length [(''A'', [''B'']), (''B'', [])]) \<and>
          settled prev [(''A'', 982792195861503836557491421472725869182257627 /
                 2814749767106560000000000000000000000000000000),
          (''B'', 36363311246875641952627182594490857159743532199 /
                 56294995342131200000000000000000000000000000000)] ''A'')"
proof -
  have h: "distinct (keys [(''A'', [''B'']), (''B'', [])])"
    by (simp add: keys_def)
  have m: "''A'' \<in> set (keys [(''A'', [''B'']), (''B'', [])])"
    by (simp add: keys_def)
  from iterate_pagerank_last_pass [OF h iterate_pagerank_sink_pair] h m
    iterate_pagerank_sink_pair
  show ?thesis by blast
qed

section \<open>Keys of the results and the random source\<close>

lemma add_links_keys:
  "add_links ls d L cont = Inr cont' \<Longrightarrow> keys cont' = keys cont"
proof (induction ls arbitrary: cont)
  case Nil
  then show ?case by simp
next
  case (Cons l ls)
  from Cons.prems obtain old v where
    old: "getitem cont l = Inr old" and
    run: "add_links ls d L (setitem cont l v) = Inr cont'"
    by (auto split: sum.splits)
  from Cons.IH [OF run] keys_setitem_known [OF getitem_mem_keys [OF old]] show ?case
    by simp
qed

lemma assign_all_keys_set:
  "assign_all ps num n cont = Inr cont' \<Longrightarrow> set (keys cont') = set ps \<union> set (keys cont)"
proof (induction ps arbitrary: cont)
  case Nil
  then show ?case by simp
next
  case (Cons q qs)
  from Cons.prems obtain v where run: "assign_all qs num n (setitem cont q v) = Inr cont'"
    by (auto split: sum.splits)
  from Cons.IH [OF run] show ?case
    by (auto simp: keys_setitem_set)
qed

lemma transition_model_keys:
  "transition_model corpus page d = Inr cont \<Longrightarrow> set (keys cont) = set (keys corpus)"
  by (auto simp: transition_model_def Let_def keys_def [of "[]"]
           split: sum.splits if_splits dest!: assign_all_keys_set add_links_keys)

lemma iterate_pagerank_keys:
  "iterate_pagerank corpus d = Some (Inr ans) \<Longrightarrow> set (keys ans) = set (keys corpus)"
  by (auto simp: iterate_pagerank_def keys_def [of "[]"]
           split: sum.splits dest!: assign_all_keys_set while_loop_keys)

text \<open>
  \<open>sample_pagerank\<close> reads the random source: there are two sources on which
  its results differ.
\<close>

lemma sample_pagerank_reads_random_source:
  "\<exists>rnd rnd'. sample_pagerank [(''A'', [''B'']), (''B'', [])] (17 / 20) 1 rnd \<noteq>
               sample_pagerank [(''A'', [''B'']), (''B'', [])] (17 / 20) 1 rnd'"
proof -
  have "sample_pagerank [(''A'', [''B'']), (''B'', [])] (17 / 20) 1 (\<lambda>i. 0) =
          Inr [(''A'', 2), (''B'', 0)]"
    by (simp add: sample_pagerank_def transition_model_def random_choice_def random_choices_def
        getitem_def setitem_def truediv_def keys_def)
  moreover
  have "sample_pagerank [(''A'', [''B'']), (''B'', [])] (17 / 20) 1 (\<lambda>i. 1 / 2) =
          Inr [(''A'', 0), (''B'', 2)]"
    by (simp add: sample_pagerank_def transition_model_def random_choice_def random_choices_def
        getitem_def setitem_def truediv_def keys_def)
  ultimately
  have "sample_pagerank [(''A'', [''B'']), (''B'', [])] (17 / 20) 1 (\<lambda>i. 0) \<noteq>
        sample_pagerank [(''A'', [''B'']), (''B'', [])] (17 / 20) 1 (\<lambda>i. 1 / 2)"
    by simp
  then show ?thesis by blast
qed


section \<open>Properties of crawl\<close>

lemma keys_extracted:
  "keys (extracted findall directory) = filter (\<lambda>f. endswith f ''.html'') (map fst directory)"
  by (induction directory) (auto simp: extracted_def keys_def)

lemma keys_append: "keys (a @ b) = keys a @ keys b"
  by (simp add: keys_def)

lemma extract_loop_fresh:
  "distinct (map fst directory) \<Longrightarrow> fst ` set directory \<inter> set (keys pages) = {} \<Longrightarrow>
     extract_loop findall directory pages = pages @ extracted findall directory"
proof (induction directory arbitrary: pages)
  case Nil
  then show ?case by (simp add: extracted_def)
next
  case (Cons x rest)
  obtain f c where x: "x = (f, c)" by (cases x)
  from Cons.prems x have d: "distinct (map fst rest)" and nf: "f \<notin> fst ` set rest"
    and fresh: "f \<notin> set (keys pages)" and disj: "fst ` set rest \<inter> set (keys pages) = {}"
    by auto
  show ?case
  proof (cases "endswith f ''.html''")
    case False
    with Cons.IH [OF d disj] x show ?thesis by (simp add: extracted_def)
  next
    case True
    let ?v = "set_minus (set_of_list (findall c)) [f]"
    from nf disj have "fst ` set rest \<inter> set (keys (pages @ [(f, ?v)])) = {}"
      by (auto simp: keys_def)
    from Cons.IH [OF d this] True x fresh show ?thesis
      by (simp add: extracted_def setitem_fresh)
  qed
qed

lemma restrict_loop_map_of:
  "distinct ks \<Longrightarrow> set ks \<subseteq> set (keys pages) \<Longrightarrow>
     \<exists>pages'. restrict_loop ks pages = Inr pages' \<and> keys pages' = keys pages \<and>
       (\<forall>f. map_of pages' f =
          (if f \<in> set ks
           then map_option (\<lambda>links. set_of_list (filter (\<lambda>l. l \<in> set (keys pages)) links))
                  (map_of pages f)
           else map_of pages f))"
proof (induction ks arbitrary: pages)
  case Nil
  then show ?case by simp
next
  case (Cons k ks)
  from Cons.prems have mem: "k \<in> set (keys pages)" by simp
  then obtain links where links: "map_of pages k = Some links"
    by (auto simp: mem_keys_iff)
  let ?p = "setitem pages k (set_of_list (filter (\<lambda>l. l \<in> set (keys pages)) links))"
  from mem have ks: "keys ?p = keys pages" by (rule keys_setitem_known)
  with Cons.prems have "set ks \<subseteq> set (keys ?p)" and "distinct ks" by simp_all
  from Cons.IH [OF this(2,1)] ks obtain pages' where
    run: "restrict_loop ks ?p = Inr pages'" and
    ks': "keys pages' = keys pages" and
    vs: "\<forall>f. map_of pages' f =
           (if f \<in> set ks
            then map_option (\<lambda>links. set_of_list (filter (\<lambda>l. l \<in> set (keys pages)) links))
                   (map_of ?p f)
            else map_of ?p f)"
    by auto
  from links run have "restrict_loop (k # ks) pages = Inr pages'"
    by (simp add: getitem_def)
  moreover from vs links Cons.prems have
    "\<forall>f. map_of pages' f =
       (if f \<in> set (k # ks)
        then map_option (\<lambda>links. set_of_list (filter (\<lambda>l. l \<in> set (keys pages)) links))
               (map_of pages f)
        else map_of pages f)"
    by (auto simp: map_of_setitem)
  ultimately show ?case using ks' by blast
qed

text \<open>
  Claim C7.  For a directory (no file name twice) \<open>crawl\<close> returns a corpus
  whose pages are the \<open>.html\<close> files, in the order of the directory.  The
  outbound set of each page is the set of the link targets found in its text,
  without the page itself and without every target that is not a page of the
  corpus; so no outbound set contains its own page, and every outbound set lies
  within the pages of the corpus.
\<close>

theorem crawl_outbound_sets:
  assumes "distinct (map fst directory)"
  shows "\<exists>corpus. crawl findall directory = Inr corpus \<and>
           keys corpus = filter (\<lambda>f. endswith f ''.html'') (map fst directory) \<and>
           (\<forall>(f, contents) \<in> set directory. endswith f ''.html'' \<longrightarrow>
              (\<exists>links. getitem corpus f = Inr links \<and> distinct links \<and>
                 set links = (set (findall contents) - {f}) \<inter> set (keys corpus) \<and>
                 f \<notin> set links \<and> set links \<subseteq> set (keys corpus)))"
proof -
  let ?E = "extracted findall directory"
  from extract_loop_fresh [OF assms, of "[]" findall]
  have ext: "extract_loop findall directory [] = ?E" by (simp add: keys_def)
  have kE: "keys ?E = filter (\<lambda>f. endswith f ''.html'') (map fst directory)"
    by (rule keys_extracted)
  with assms have dE: "distinct (keys ?E)" by simp
  from restrict_loop_map_of [OF dE subset_refl] obtain corpus where
    run: "restrict_loop (keys ?E) ?E = Inr corpus" and
    kc: "keys corpus = keys ?E" and
    vs: "\<forall>f. map_of corpus f =
           (if f \<in> set (keys ?E)
            then map_option (\<lambda>links. set_of_list (filter (\<lambda>l. l \<in> set (keys ?E)) links))
                   (map_of ?E f)
            else map_of ?E f)"
    by blast
  from ext run have c: "crawl findall directory = Inr corpus"
    by (simp add: crawl_def)
  have "\<exists>links. getitem corpus f = Inr links \<and> distinct links \<and>
          set links = (set (findall contents) - {f}) \<inter> set (keys corpus) \<and>
          f \<notin> set links \<and> set links \<subseteq> set (keys corpus)"
    if mem: "(f, contents) \<in> set directory" and html: "endswith f ''.html''"
    for f contents
  proof -
    let ?v = "set_minus (set_of_list (findall contents)) [f]"
    from mem html have "(f, ?v) \<in> set ?E"
      by (force simp: extracted_def)
    with dE have mE: "map_of ?E f = Some ?v"
      by (simp add: keys_def)
    then have "f \<in> set (keys ?E)" by (auto simp: mem_keys_iff)
    with vs mE have
      "map_of corpus f = Some (set_of_list (filter (\<lambda>l. l \<in> set (keys ?E)) ?v))"
      by simp
    with kc show ?thesis
      by (auto simp: getitem_Inr_iff set_of_list_def set_minus_def)
  qed
  with c kc kE show ?thesis by auto
qed

theorem crawl_outbound_sets_witness:
  "distinct (map fst [(''1.html'', ''x''), (''2.html'', ''y''), (''notes.txt'', ''z'')]) \<and>
   (\<exists>corpus. crawl (\<lambda>c. if c = ''x'' then [''2.html'', ''1.html'', ''3.html'', ''2.html''] else [])
        [(''1.html'', ''x''), (''2.html'', ''y''), (''notes.txt'', ''z'')] = Inr corpus \<and>
      keys corpus = [''1.html'', ''2.html''] \<and>
      (\<exists>links. getitem corpus ''1.html'' = Inr links \<and> set links = {''2.html''}))"
proof -
  have h: "distinct (map fst [(''1.html'', ''x''), (''2.html'', ''y''), (''notes.txt'', ''z'')])"
    by simp
  from crawl_outbound_sets [OF h, of "(\<lambda>c. if c = ''x'' then [''2.html'', ''1.html'', ''3.html'', ''2.html''] else [])"]
  obtain corpus where
    c: "crawl (\<lambda>c. if c = ''x'' then [''2.html'', ''1.html'', ''3.html'', ''2.html''] else [])
          [(''1.html'', ''x''), (''2.html'', ''y''), (''notes.txt'', ''z'')] = Inr corpus" and
    k: "keys corpus = filter (\<lambda>f. endswith f ''.html'')
          (map fst [(''1.html'', ''x''), (''2.html'', ''y''), (''notes.txt'', ''z'')])" and
    l: "\<forall>(f, contents) \<in> set [(''1.html'', ''x''), (''2.html'', ''y''), (''notes.txt'', ''z'')].
          endswith f ''.html'' \<longrightarrow>
          (\<exists>links. getitem corpus f = Inr links \<and> distinct links \<and>
             set links =
               (set ((\<lambda>c. if c = ''x'' then [''2.html'', ''1.html'', ''3.html'', ''2.html''] else []) contents) - {f}) \<inter> set (keys corpus) \<and>
             f \<notin> set links \<and> set links \<subseteq> set (keys corpus))"
    by blast
  from k have k': "keys corpus = [''1.html'', ''2.html'']"
    by (simp add: endswith_def)
  from l k' obtain links where
    "getitem corpus ''1.html'' = Inr links" and "set links = {''2.html''}"
    by (auto simp: endswith_def)
  with c k' h show ?thesis by blast
qed

section \<open>Effects on the store\<close>

lemma bind_Inr_iff: "bind m f = Inr y \<longleftrightarrow> (\<exists>x. m = Inr x \<and> f x = Inr y)"
  by (cases m) (simp_all add: bind_def)

lemma for_each_invariant:
  assumes "for_each xs body s = Inr s'" and "P s"
    and "\<And>x s s'. P s \<Longrightarrow> body x s = Inr s' \<Longrightarrow> P s'"
  shows "P s'"
  using assms(1,2)
proof (induction xs arbitrary: s)
  case Nil
  then show ?case by simp
next
  case (Cons x xs)
  from Cons.prems(1) obtain s1 where
    step: "body x s = Inr s1" and run: "for_each xs body s1 = Inr s'"
    by (auto split: sum.splits)
  from assms(3) [OF Cons.prems(2) step] have "P s1" .
  from Cons.IH [OF run this] show ?case .
qed

lemma extends_refl: "extends h h"
  by (simp add: extends_def)

lemma extends_length:
  assumes "extends h0 h"
  shows "length h0 \<le> length h"
proof -
  from assms have "length (take (length h0) h) = length h0"
    by (simp add: extends_def)
  then show ?thesis by simp
qed

lemma extends_alloc: "extends h0 h \<Longrightarrow> extends h0 (h @ [ob])"
  using extends_length [of h0 h] by (simp add: extends_def)

lemma h_setitem_extends:
  assumes "h_setitem h a k v = Inr h'" and "extends h0 h" and "length h0 \<le> a"
  shows "extends h0 h'"
proof -
  from assms(1) obtain d where "h' = h[a := DictObj (setitem d k v)]"
    by (auto simp: h_setitem_def bind_Inr_iff)
  with assms(2,3) show ?thesis by (simp add: extends_def)
qed

lemma h_add_to_extends:
  assumes "h_add_to h a k rhs = Inr h'" and "extends h0 h" and "length h0 \<le> a"
  shows "extends h0 h'"
proof -
  from assms(1) obtain v where "h_setitem h a k v = Inr h'"
    by (auto simp: h_add_to_def bind_Inr_iff)
  from this assms(2,3) show ?thesis by (rule h_setitem_extends)
qed

lemma tm_base_step_extends:
  assumes "tm_base_step corpus cont num p h = Inr h'" and "extends h0 h" and "length h0 \<le> cont"
  shows "extends h0 h'"
proof -
  from assms(1) obtain v where "h_setitem h cont p v = Inr h'"
    by (auto simp: tm_base_step_def bind_Inr_iff)
  from this assms(2,3) show ?thesis by (rule h_setitem_extends)
qed

lemma tm_link_step_extends:
  assumes "tm_link_step corpus cont page d l h = Inr h'" and "extends h0 h"
    and "length h0 \<le> cont"
  shows "extends h0 h'"
  using assms unfolding tm_link_step_def by (rule h_add_to_extends)

lemma bind_InrE:
  assumes "bind m f = Inr y"
  obtains x where "m = Inr x" and "f x = Inr y"
  using assms by (auto simp: bind_Inr_iff)

lemma base_loop_extends:
  assumes "for_each pages (tm_base_step c cont num) h = Inr hb"
    and "extends h0 h" and "length h0 \<le> cont"
  shows "extends h0 hb"
  using assms(1,2)
  by (rule for_each_invariant) (rule tm_base_step_extends [OF _ _ assms(3)])

lemma link_loop_extends:
  assumes "for_each links (tm_link_step c cont page d) h = Inr hl"
    and "extends h0 h" and "length h0 \<le> cont"
  shows "extends h0 hl"
  using assms(1,2)
  by (rule for_each_invariant) (rule tm_link_step_extends [OF _ _ assms(3)])

lemma transition_model_h_extends:
  assumes "transition_model_h h c page d = Inr (h', a)" and "extends h0 h"
  shows "extends h0 h' \<and> a = length h"
proof -
  have e1: "extends h0 (h @ [DictObj []])" using assms(2) by (rule extends_alloc)
  have le: "length h0 \<le> length h" using assms(2) by (rule extends_length)
  from assms(1) show ?thesis
    unfolding transition_model_h_def alloc_def Let_def prod.case
    apply (elim bind_InrE)
    apply (split if_splits)
     apply (elim bind_InrE)
     apply (auto intro: link_loop_extends [OF _ base_loop_extends [OF _ e1 le] le])[1]
    apply (elim bind_InrE)
    apply (auto intro: base_loop_extends [OF _ e1 le])[1]
    done
qed


lemma zero_step_extends:
  assumes "zero_step cont key h = Inr h'" and "extends h0 h" and "length h0 \<le> cont"
  shows "extends h0 h'"
  using assms unfolding zero_step_def by (rule h_setitem_extends)

lemma divide_step_extends:
  assumes "divide_step cont n key h = Inr h'" and "extends h0 h" and "length h0 \<le> cont"
  shows "extends h0 h'"
proof -
  from assms(1) obtain v where "h_setitem h cont key v = Inr h'"
    by (auto simp: divide_step_def bind_Inr_iff)
  from this assms(2,3) show ?thesis by (rule h_setitem_extends)
qed

lemma sample_step_extends:
  assumes "sample_step corpus cont d rnd i (h, page) = Inr (h', page')"
    and "extends h0 h" and "length h0 \<le> cont"
  shows "extends h0 h'"
proof -
  from assms(1) obtain h1 sample p where
    t: "transition_model_h h corpus page d = Inr (h1, sample)" and
    a: "h_add_to h1 cont p (\<lambda>h. Inr 1) = Inr h'"
    by (auto simp: sample_step_def bind_Inr_iff)
  from transition_model_h_extends [OF t assms(2)] have "extends h0 h1" by blast
  from a this assms(3) show ?thesis by (rule h_add_to_extends)
qed

lemma init_step_extends:
  assumes "init_step ans N key h = Inr h'" and "extends h0 h" and "length h0 \<le> ans"
  shows "extends h0 h'"
proof -
  from assms(1) obtain v where "h_setitem h ans key v = Inr h'"
    by (auto simp: init_step_def bind_Inr_iff)
  from this assms(2,3) show ?thesis by (rule h_setitem_extends)
qed

lemma pass_step_extends:
  assumes "pass_step corpus ans N d key (h, count) = Inr (h', count')"
    and "extends h0 h" and "length h0 \<le> ans"
  shows "extends h0 h'"
proof -
  from assms(1) obtain v where "h_setitem h ans key v = Inr h'"
    by (auto simp: pass_step_def Let_def bind_Inr_iff)
  from this assms(2,3) show ?thesis by (rule h_setitem_extends)
qed

lemma pass_h_extends:
  assumes "for_each pages (pass_step corpus ans N d) (h, c) = Inr (h', c')"
    and "extends h0 h" and "length h0 \<le> ans"
  shows "extends h0 h'"
proof -
  have "extends h0 (fst (h', c'))"
    using assms(1)
  proof (rule for_each_invariant [where P = "\<lambda>st. extends h0 (fst st)"])
    show "extends h0 (fst (h, c))" using assms(2) by simp
  next
    fix x and s s' :: "heap \<times> nat"
    assume "extends h0 (fst s)" and "pass_step corpus ans N d x s = Inr s'"
    then show "extends h0 (fst s')"
      using pass_step_extends [of corpus ans N d x "fst s" "snd s" "fst s'" "snd s'" h0]
            assms(3)
      by simp
  qed
  then show ?thesis by simp
qed

lemma sample_loop_h_extends:
  assumes "for_each is (sample_step corpus cont d rnd) (h, page) = Inr (h', page')"
    and "extends h0 h" and "length h0 \<le> cont"
  shows "extends h0 h'"
proof -
  have "extends h0 (fst (h', page'))"
    using assms(1)
  proof (rule for_each_invariant [where P = "\<lambda>st. extends h0 (fst st)"])
    show "extends h0 (fst (h, page))" using assms(2) by simp
  next
    fix x and s s' :: "heap \<times> page"
    assume "extends h0 (fst s)" and "sample_step corpus cont d rnd x s = Inr s'"
    then show "extends h0 (fst s')"
      using sample_step_extends [of corpus cont d rnd x "fst s" "snd s" "fst s'" "snd s'" h0]
            assms(3)
      by simp
  qed
  then show ?thesis by simp
qed

lemma sample_pagerank_h_extends:
  assumes "sample_pagerank_h h corpus d n rnd = Inr (h', a)"
  shows "extends h h' \<and> a = length h"
proof -
  have e1: "extends h (h @ [DictObj []])" by (rule extends_alloc [OF extends_refl])
  have zero: "extends h h1"
    if "for_each pages (zero_step (length h)) (h @ [DictObj []]) = Inr h1" for pages h1
    using that e1
    by (rule for_each_invariant) (rule zero_step_extends [OF _ _ order_refl])
  have first: "extends h h2"
    if "h_add_to h1 (length h) page (\<lambda>h. Inr 1) = Inr h2" and "extends h h1" for h1 h2 page
    using that by (rule h_add_to_extends) simp
  have loop: "extends h h3"
    if "for_each is (sample_step corpus (length h) d rnd) (h2, page) = Inr (h3, page3)"
      and "extends h h2" for "is" h2 page h3 page3
    using that by (rule sample_loop_h_extends) simp
  have fin: "extends h h4"
    if "for_each ks (divide_step (length h) n) h3 = Inr h4" and "extends h h3" for ks h3 h4
    using that
    by (rule for_each_invariant) (rule divide_step_extends [OF _ _ order_refl])
  from assms show ?thesis
    unfolding sample_pagerank_h_def alloc_def Let_def prod.case
    apply (elim bind_InrE)
    apply (auto split: prod.splits elim!: bind_InrE)[1]
    apply (rule fin, assumption)
    apply (rule loop, assumption)
    apply (rule first, assumption)
    apply (rule zero, assumption)
    done
qed

lemma while_loop_h_extends_aux:
  assumes run: "while_loop_h corpus ans N d h = Some y"
  shows "\<forall>h0 h'. extends h0 h \<longrightarrow> length h0 \<le> ans \<longrightarrow> y = Inr h' \<longrightarrow> extends h0 h'"
proof (rule while_loop_h.raw_induct
        [where P = "\<lambda>corpus ans N d h y.
           \<forall>h0 h'. extends h0 h \<longrightarrow> length h0 \<le> ans \<longrightarrow> y = Inr h' \<longrightarrow> extends h0 h'",
         OF _ run])
  fix f :: "nat \<Rightarrow> nat \<Rightarrow> nat \<Rightarrow> rat \<Rightarrow> heap \<Rightarrow> (error + heap) option"
    and corpus ans N d h y
  assume IH: "\<And>corpus ans N d h y. f corpus ans N d h = Some y \<Longrightarrow>
                \<forall>h0 h'. extends h0 h \<longrightarrow> length h0 \<le> ans \<longrightarrow> y = Inr h' \<longrightarrow> extends h0 h'"
    and step: "(case bind (h_iter h corpus)
                       (\<lambda>pages. for_each pages (pass_step corpus ans N d) (h, 0)) of
                  Inl e \<Rightarrow> Some (Inl e)
                | Inr (h', count) \<Rightarrow>
                    if count = N then Some (Inr h') else f corpus ans N d h') = Some y"
  show "\<forall>h0 h'. extends h0 h \<longrightarrow> length h0 \<le> ans \<longrightarrow> y = Inr h' \<longrightarrow> extends h0 h'"
  proof (intro allI impI)
    fix h0 h'
    assume e: "extends h0 h" and le: "length h0 \<le> ans" and y: "y = Inr h'"
    let ?m = "bind (h_iter h corpus) (\<lambda>pages. for_each pages (pass_step corpus ans N d) (h, 0))"
    from step y obtain st where m: "?m = Inr st"
      by (cases ?m) simp_all
    obtain h1 c1 where st: "st = (h1, c1)" by (cases st)
    from m st obtain pages where
      p: "for_each pages (pass_step corpus ans N d) (h, 0) = Inr (h1, c1)"
      by (auto elim: bind_InrE)
    from step y m st have
      rest: "(c1 = N \<and> h1 = h') \<or> (c1 \<noteq> N \<and> f corpus ans N d h1 = Some (Inr h'))"
      by (cases "c1 = N") simp_all
    from pass_h_extends [OF p e le] have e1: "extends h0 h1" .
    from rest show "extends h0 h'"
    proof
      assume "c1 = N \<and> h1 = h'"
      with e1 show ?thesis by simp
    next
      assume "c1 \<noteq> N \<and> f corpus ans N d h1 = Some (Inr h')"
      with IH [of corpus ans N d h1 "Inr h'"] e1 le show ?thesis by blast
    qed
  qed
qed

lemma iterate_pagerank_h_extends:
  assumes "iterate_pagerank_h h corpus d = Some (Inr (h', a))"
  shows "extends h h' \<and> a = length h"
proof -
  have e1: "extends h (h @ [DictObj []])" by (rule extends_alloc [OF extends_refl])
  let ?h1 = "h @ [DictObj []]"
  let ?m = "bind (h_len ?h1 corpus) (\<lambda>N.
            bind (h_iter ?h1 corpus) (\<lambda>pages.
            bind (for_each pages (init_step (length h) N) ?h1) (\<lambda>h. Inr (N, h))))"
  from assms have run:
    "(case ?m of
        Inl e \<Rightarrow> Some (Inl e)
      | Inr (N, h1) \<Rightarrow>
          (case while_loop_h corpus (length h) N d h1 of
             None \<Rightarrow> None
           | Some (Inl e) \<Rightarrow> Some (Inl e)
           | Some (Inr h2) \<Rightarrow> Some (Inr (h2, length h)))) = Some (Inr (h', a))"
    by (simp add: iterate_pagerank_h_def alloc_def)
  then obtain st where m: "?m = Inr st"
    by (cases ?m) simp_all
  obtain N h1 where st: "st = (N, h1)" by (cases st)
  from m st obtain pages where
    i: "for_each pages (init_step (length h) N) ?h1 = Inr h1"
    by (auto elim!: bind_InrE)
  from run m st have
    w: "while_loop_h corpus (length h) N d h1 = Some (Inr h')" and a: "a = length h"
    by (auto split: option.splits sum.splits)
  from i e1 have "extends h h1"
    by (rule for_each_invariant) (rule init_step_extends [OF _ _ order_refl])
  with while_loop_h_extends_aux [OF w] a show ?thesis by simp
qed

lemma extends_nth:
  assumes "extends h h'" and "a < length h"
  shows "h' ! a = h ! a" and "a < length h'"
proof -
  from assms(1) have "take (length h) h' ! a = h ! a" by (simp add: extends_def)
  with assms(2) show "h' ! a = h ! a" by simp
  from extends_length [OF assms(1)] assms(2) show "a < length h'" by simp
qed

lemma sets_of_extends:
  "extends h h' \<Longrightarrow> sets_of h d = Some C \<Longrightarrow> sets_of h' d = Some C"
proof (induction d arbitrary: C)
  case Nil
  then show ?case by simp
next
  case (Cons x d)
  obtain p v where x: "x = (p, v)" by (cases x)
  from Cons.prems(2) x obtain a s r where
    v: "v = Ref a" and a: "a < length h" and s: "h ! a = SetObj s" and
    r: "sets_of h d = Some r" and C: "C = (p, s) # r"
    by (auto split: val.splits if_splits obj.splits)
  from extends_nth [OF Cons.prems(1) a] s have "h' ! a = SetObj s" and "a < length h'"
    by simp_all
  with Cons.IH [OF Cons.prems(1) r] x v C show ?case by simp
qed

lemma corpus_of_extends:
  assumes "extends h h'" and "corpus_of h c = Some C"
  shows "corpus_of h' c = Some C"
proof -
  from assms(2) obtain d where
    c: "c < length h" and d: "h ! c = DictObj d" and s: "sets_of h d = Some C"
    by (auto simp: corpus_of_def split: if_splits obj.splits)
  from extends_nth [OF assms(1) c] d have "h' ! c = DictObj d" and "c < length h'"
    by simp_all
  with sets_of_extends [OF assms(1) s] show ?thesis
    by (simp add: corpus_of_def)
qed

lemma sets_of_keys: "sets_of h d = Some C \<Longrightarrow> keys C = keys d"
proof (induction d arbitrary: C)
  case Nil
  then show ?case by (simp add: keys_def)
next
  case (Cons x d)
  obtain p v where x: "x = (p, v)" by (cases x)
  from Cons.prems x obtain s r where r: "sets_of h d = Some r" and C: "C = (p, s) # r"
    by (auto split: val.splits if_splits obj.splits)
  from Cons.IH [OF r] x C show ?case by (simp add: keys_def)
qed

lemma sets_of_lookup:
  "sets_of h d = Some C \<Longrightarrow> map_of d page = Some v \<Longrightarrow>
     \<exists>a links. v = Ref a \<and> a < length h \<and> h ! a = SetObj links \<and> map_of C page = Some links"
proof (induction d arbitrary: C)
  case Nil
  then show ?case by simp
next
  case (Cons x d)
  obtain p w where x: "x = (p, w)" by (cases x)
  from Cons.prems(1) x obtain a s r where
    w: "w = Ref a" and a: "a < length h" and s: "h ! a = SetObj s" and
    r: "sets_of h d = Some r" and C: "C = (p, s) # r"
    by (auto split: val.splits if_splits obj.splits)
  show ?case
  proof (cases "p = page")
    case True
    with Cons.prems(2) x w a s C show ?thesis by auto
  next
    case False
    with Cons.prems(2) x have "map_of d page = Some v" by simp
    from Cons.IH [OF r this] False C show ?thesis by simp
  qed
qed

lemma corpus_of_iter:
  assumes "corpus_of h c = Some C"
  shows "h_iter h c = Inr (keys C)" and "h_len h c = Inr (length C)"
proof -
  from assms obtain d where
    c: "c < length h" and d: "h ! c = DictObj d" and s: "sets_of h d = Some C"
    by (auto simp: corpus_of_def split: if_splits obj.splits)
  from c d sets_of_keys [OF s] show "h_iter h c = Inr (keys C)"
    by (simp add: h_iter_def deref_def bind_def)
  then show "h_len h c = Inr (length C)"
    by (simp add: h_len_def bind_def keys_def)
qed

lemma corpus_of_lookup_set:
  assumes "corpus_of h c = Some C" and "h_lookup_set h c page = Inr s"
  shows "\<exists>links. getitem C page = Inr links \<and> h_iter h s = Inr links \<and>
           h_len h s = Inr (length links)"
proof -
  from assms(1) obtain d where
    c: "c < length h" and d: "h ! c = DictObj d" and so: "sets_of h d = Some C"
    by (auto simp: corpus_of_def split: if_splits obj.splits)
  from assms(2) c d have "map_of d page = Some (Ref s)"
    by (auto simp: h_lookup_set_def h_getitem_def the_dict_def deref_def bind_def getitem_def
                   the_ref_def split: option.splits val.splits)
  from sets_of_lookup [OF so this] obtain links where
    "s < length h" and "h ! s = SetObj links" and "map_of C page = Some links"
    by auto
  then show ?thesis
    by (simp add: getitem_def h_iter_def h_len_def deref_def bind_def)
qed

lemma map_of_num_dict: "map_of (num_dict t) k = map_option Num (map_of t k)"
  by (induction t) (auto simp: num_dict_def)

lemma setitem_num_dict: "setitem (num_dict t) k (Num v) = num_dict (setitem t k v)"
  by (induction t) (auto simp: num_dict_def setitem_def)

lemma the_dict_update:
  "the_dict h a = Inr d \<Longrightarrow> the_dict (h[a := DictObj d']) a = Inr d'"
  by (auto simp: the_dict_def deref_def bind_def split: if_splits obj.splits)

lemma h_setitem_num_dict:
  assumes "the_dict h cont = Inr (num_dict t)" and "h_setitem h cont k (Num v) = Inr h'"
  shows "the_dict h' cont = Inr (num_dict (setitem t k v))"
proof -
  from assms have "h' = h[cont := DictObj (setitem (num_dict t) k (Num v))]"
    by (simp add: h_setitem_def bind_def)
  with the_dict_update [OF assms(1)] show ?thesis
    by (simp add: setitem_num_dict)
qed

lemma the_dict_Inr: "the_dict h a = Inr d \<longleftrightarrow> a < length h \<and> h ! a = DictObj d"
  by (auto simp: the_dict_def deref_def bind_def split: obj.splits)

lemma h_setitem_eq:
  "the_dict h a = Inr d \<Longrightarrow> h_setitem h a k v = Inr (h[a := DictObj (setitem d k v)])"
  by (simp add: h_setitem_def bind_def)

lemma the_dict_update_same: "the_dict h a = Inr d \<Longrightarrow> h[a := DictObj d] = h"
  by (simp add: the_dict_Inr list_update_same_conv)

lemma extends_update:
  "extends h0 h \<Longrightarrow> length h0 \<le> a \<Longrightarrow> extends h0 (h[a := ob])"
  by (simp add: extends_def)

lemma corpus_of_lookup_cases:
  assumes "corpus_of h c = Some C"
  shows "(getitem C page = Inl KeyError \<and> h_lookup_set h c page = Inl KeyError) \<or>
         (\<exists>links s. getitem C page = Inr links \<and> h_lookup_set h c page = Inr s \<and>
            h_iter h s = Inr links \<and> h_len h s = Inr (length links))"
proof -
  from assms obtain dd where
    c: "c < length h" and dd: "h ! c = DictObj dd" and so: "sets_of h dd = Some C"
    by (auto simp: corpus_of_def split: if_splits obj.splits)
  show ?thesis
  proof (cases "map_of dd page")
    case None
    with sets_of_keys [OF so] have "map_of C page = None"
      using same_keys_map_of [of C dd page] by simp
    with None c dd show ?thesis
      by (simp add: getitem_def h_lookup_set_def h_getitem_def the_dict_def deref_def bind_def)
  next
    case (Some v)
    from sets_of_lookup [OF so Some] obtain a links where
      v: "v = Ref a" and a: "a < length h" and s: "h ! a = SetObj links" and
      m: "map_of C page = Some links"
      by blast
    with Some c dd show ?thesis
      by (simp add: getitem_def h_lookup_set_def h_getitem_def the_dict_def deref_def bind_def
                    the_ref_def h_iter_def h_len_def)
  qed
qed

lemma base_loop_eq:
  assumes "corpus_of h0 c = Some C" and "length h0 \<le> cont"
  shows "extends h0 h \<Longrightarrow> the_dict h cont = Inr (num_dict t) \<Longrightarrow>
           for_each ks (tm_base_step c cont num) h =
             (case assign_all ks num (length C) t of
                Inl e \<Rightarrow> Inl e
              | Inr t' \<Rightarrow> Inr (h[cont := DictObj (num_dict t')]))"
proof (induction ks arbitrary: h t)
  case Nil
  then show ?case
    by (simp add: the_dict_update_same)
next
  case (Cons k ks)
  from corpus_of_iter(2) [OF corpus_of_extends [OF Cons.prems(1) assms(1)]]
  have len: "h_len h c = Inr (length C)" .
  show ?case
  proof (cases "truediv num (of_nat (length C))")
    case (Inl e)
    with len show ?thesis by (simp add: tm_base_step_def bind_def)
  next
    case (Inr v)
    let ?h1 = "h[cont := DictObj (num_dict (setitem t k v))]"
    from h_setitem_eq [OF Cons.prems(2), of k "Num v"] len Inr
    have step: "tm_base_step c cont num k h = Inr ?h1"
      by (simp add: tm_base_step_def bind_def setitem_num_dict)
    have e1: "extends h0 ?h1"
      using Cons.prems(1) assms(2) by (rule extends_update)
    from Cons.prems(2) have d1: "the_dict ?h1 cont = Inr (num_dict (setitem t k v))"
      by (simp add: the_dict_Inr)
    from Cons.IH [OF e1 d1] step Inr show ?thesis by (simp split: sum.splits)
  qed
qed

lemma link_loop_eq:
  assumes "corpus_of h0 c = Some C" and "length h0 \<le> cont" and "getitem C page = Inr links"
  shows "extends h0 h \<Longrightarrow> the_dict h cont = Inr (num_dict t) \<Longrightarrow>
           for_each ls (tm_link_step c cont page d) h =
             (case add_links ls d (length links) t of
                Inl e \<Rightarrow> Inl e
              | Inr t' \<Rightarrow> Inr (h[cont := DictObj (num_dict t')]))"
proof (induction ls arbitrary: h t)
  case Nil
  then show ?case
    by (simp add: the_dict_update_same)
next
  case (Cons l ls)
  have co: "corpus_of h c = Some C"
    using Cons.prems(1) assms(1) by (rule corpus_of_extends)
  from corpus_of_lookup_cases [OF co, of page] assms(3) obtain s where
    s: "h_lookup_set h c page = Inr s" and L: "h_len h s = Inr (length links)"
    by auto
  from Cons.prems(2) have get: "h_getitem h cont l =
      (case getitem t l of Inl e \<Rightarrow> Inl e | Inr x \<Rightarrow> Inr (Num x))"
    by (simp add: h_getitem_def bind_def getitem_def map_of_num_dict split: option.splits)
  show ?case
  proof (cases "getitem t l")
    case (Inl e)
    with get show ?thesis
      by (simp add: tm_link_step_def h_add_to_def bind_def)
  next
    case old: (Inr x)
    show ?thesis
    proof (cases "truediv d (of_nat (length links))")
      case (Inl e)
      with get old s L show ?thesis
        by (simp add: tm_link_step_def h_add_to_def bind_def)
    next
      case (Inr v)
      let ?h1 = "h[cont := DictObj (num_dict (setitem t l (x + v)))]"
      from h_setitem_eq [OF Cons.prems(2), of l "Num (x + v)"] get old s L Inr
      have step: "tm_link_step c cont page d l h = Inr ?h1"
        by (simp add: tm_link_step_def h_add_to_def bind_def the_num_def setitem_num_dict)
      have e1: "extends h0 ?h1"
        using Cons.prems(1) assms(2) by (rule extends_update)
      from Cons.prems(2) have d1: "the_dict ?h1 cont = Inr (num_dict (setitem t l (x + v)))"
        by (simp add: the_dict_Inr)
      from Cons.IH [OF e1 d1] step old Inr show ?thesis by (simp split: sum.splits)
    qed
  qed
qed

lemma transition_model_h_eq:
  assumes "corpus_of h c = Some C"
  shows "transition_model_h h c page d =
           (case transition_model C page d of
              Inl e \<Rightarrow> Inl e
            | Inr cont \<Rightarrow> Inr (h @ [DictObj (num_dict cont)], length h))"
proof -
  let ?h1 = "h @ [DictObj []]"
  have e1: "extends h ?h1" by (rule extends_alloc [OF extends_refl])
  have co: "corpus_of ?h1 c = Some C" using e1 assms by (rule corpus_of_extends)
  have d0: "the_dict ?h1 (length h) = Inr (num_dict [])"
    by (simp add: the_dict_Inr num_dict_def)
  have upd: "?h1[length h := ob] = h @ [ob]" for ob
    by simp
  have it: "h_iter ?h1 c = Inr (keys C)" by (rule corpus_of_iter(1) [OF co])
  from corpus_of_lookup_cases [OF co, of page] show ?thesis
  proof (elim disjE exE conjE)
    assume "getitem C page = Inl KeyError" and "h_lookup_set ?h1 c page = Inl KeyError"
    then show ?thesis
      by (simp add: transition_model_h_def transition_model_def alloc_def bind_def)
  next
    fix links s
    assume g: "getitem C page = Inr links" and s: "h_lookup_set ?h1 c page = Inr s"
      and i: "h_iter ?h1 s = Inr links" and n: "h_len ?h1 s = Inr (length links)"
    show ?thesis
    proof (cases "length links = 0")
      case True
      from base_loop_eq [OF assms order_refl e1 d0, of "keys C" 1] g s n it True upd
      show ?thesis
        by (simp add: transition_model_h_def transition_model_def alloc_def bind_def
                 split: sum.splits)
    next
      case False
      show ?thesis
      proof (cases "assign_all (keys C) (1 - d) (length C) []")
        case (Inl e)
        with base_loop_eq [OF assms order_refl e1 d0, of "keys C" "1 - d"] g s n it False
        show ?thesis
          by (simp add: transition_model_h_def transition_model_def alloc_def bind_def)
      next
        case (Inr t)
        let ?h2 = "h @ [DictObj (num_dict t)]"
        from base_loop_eq [OF assms order_refl e1 d0, of "keys C" "1 - d"] Inr upd
        have b: "for_each (keys C) (tm_base_step c (length h) (1 - d)) ?h1 = Inr ?h2"
          by simp
        have e2: "extends h ?h2" by (rule extends_alloc [OF extends_refl])
        have d2: "the_dict ?h2 (length h) = Inr (num_dict t)"
          by (simp add: the_dict_Inr)
        have upd2: "?h2[length h := ob] = h @ [ob]" for ob
          by simp
        from corpus_of_lookup_cases [OF corpus_of_extends [OF e2 assms], of page] g
        obtain s2 where
          s2: "h_lookup_set ?h2 c page = Inr s2" and i2: "h_iter ?h2 s2 = Inr links"
          by auto
        from link_loop_eq [OF assms order_refl g e2 d2, of links d] upd2
        have l: "for_each links (tm_link_step c (length h) page d) ?h2 =
                   (case add_links links d (length links) t of
                      Inl e \<Rightarrow> Inl e
                    | Inr t' \<Rightarrow> Inr (h @ [DictObj (num_dict t')]))"
          by (simp split: sum.splits)
        from g s n it False Inr b s2 i2 l show ?thesis
          by (simp add: transition_model_h_def transition_model_def alloc_def bind_def
                   split: sum.splits)
      qed
    qed
  qed
qed

lemma h_getitem_num_dict:
  "the_dict h a = Inr (num_dict t) \<Longrightarrow>
     bind (h_getitem h a k) the_num = getitem t k"
  by (simp add: h_getitem_def bind_def getitem_def map_of_num_dict the_num_def
           split: option.splits)

lemma sum_step_eq:
  assumes "corpus_of h c = Some C" and "the_dict h ans = Inr (num_dict t)"
  shows "sum_step h c ans key page s =
           (case getitem C page of
              Inl e \<Rightarrow> Inl e
            | Inr links \<Rightarrow>
                if key \<in> set links then
                  (case getitem t page of
                     Inl e \<Rightarrow> Inl e
                   | Inr r \<Rightarrow>
                       (case truediv r (of_nat (length links)) of
                          Inl e \<Rightarrow> Inl e
                        | Inr q \<Rightarrow> Inr (s + q)))
                else if length links = 0 then
                  (case getitem t page of
                     Inl e \<Rightarrow> Inl e
                   | Inr r \<Rightarrow>
                       (case truediv r (of_nat (length C)) of
                          Inl e \<Rightarrow> Inl e
                        | Inr q \<Rightarrow> Inr (s + q)))
                else Inr s)"
proof -
  have g: "h_getitem h ans page =
             (case getitem t page of Inl e \<Rightarrow> Inl e | Inr x \<Rightarrow> Inr (Num x))"
    using assms(2)
    by (simp add: h_getitem_def bind_def getitem_def map_of_num_dict split: option.splits)
  from corpus_of_lookup_cases [OF assms(1), of page] show ?thesis
  proof (elim disjE exE conjE)
    assume "getitem C page = Inl KeyError" and "h_lookup_set h c page = Inl KeyError"
    then show ?thesis by (simp add: sum_step_def bind_def)
  next
    fix links a
    assume "getitem C page = Inr links" and "h_lookup_set h c page = Inr a"
      and "h_iter h a = Inr links" and "h_len h a = Inr (length links)"
    with g corpus_of_iter(2) [OF assms(1)] show ?thesis
      by (simp add: sum_step_def h_contains_def bind_def the_num_def split: sum.splits)
  qed
qed

lemma sum_loop_eq:
  assumes "corpus_of h c = Some C" and "the_dict h ans = Inr (num_dict t)"
  shows "for_each pages (sum_step h c ans key) s = sum_loop C t key pages s"
proof (induction pages arbitrary: s)
  case Nil
  show ?case by simp
next
  case (Cons page pages)
  have "sum_loop C t key (page # pages) s =
          (case sum_step h c ans key page s of
             Inl e \<Rightarrow> Inl e
           | Inr s' \<Rightarrow> sum_loop C t key pages s')"
    by (simp add: sum_step_eq [OF assms] split: sum.splits)
  then show ?case
    by (simp add: Cons.IH split: sum.splits)
qed

lemma pass_eq:
  assumes "corpus_of h0 c = Some C" and "length h0 \<le> ans"
  shows "extends h0 h \<Longrightarrow> the_dict h ans = Inr (num_dict t) \<Longrightarrow>
           for_each ks (pass_step c ans (length C) d) (h, cnt) =
             (case pass_loop C d ks t cnt of
                Inl e \<Rightarrow> Inl e
              | Inr (t', cnt') \<Rightarrow> Inr (h[ans := DictObj (num_dict t')], cnt'))"
proof (induction ks arbitrary: h t cnt)
  case Nil
  then show ?case by (simp add: the_dict_update_same)
next
  case (Cons key ks)
  have co: "corpus_of h c = Some C"
    using Cons.prems(1) assms(1) by (rule corpus_of_extends)
  note it = corpus_of_iter(1) [OF co]
  note sl = sum_loop_eq [OF co Cons.prems(2)]
  have g: "h_getitem h ans key =
             (case getitem t key of Inl e \<Rightarrow> Inl e | Inr x \<Rightarrow> Inr (Num x))"
    using Cons.prems(2)
    by (simp add: h_getitem_def bind_def getitem_def map_of_num_dict split: option.splits)
  show ?case
  proof (cases "truediv (1 - d) (of_nat (length C))")
    case (Inl e)
    then show ?thesis by (simp add: pass_step_def bind_def)
  next
    case new0: (Inr new0)
    show ?thesis
    proof (cases "sum_loop C t key (keys C) 0")
      case (Inl e)
      with new0 it sl show ?thesis by (simp add: pass_step_def bind_def)
    next
      case s: (Inr s)
      show ?thesis
      proof (cases "getitem t key")
        case (Inl e)
        with new0 it sl s g show ?thesis by (simp add: pass_step_def bind_def Let_def)
      next
        case old: (Inr old)
        let ?new = "new0 + d * s"
        let ?t1 = "setitem t key ?new"
        let ?h1 = "h[ans := DictObj (num_dict ?t1)]"
        let ?c1 = "if \<bar>old - ?new\<bar> < 1 / 1000 then cnt + 1 else cnt"
        from h_setitem_eq [OF Cons.prems(2), of key "Num ?new"] new0 it sl s g old
        have step: "pass_step c ans (length C) d key (h, cnt) = Inr (?h1, ?c1)"
          by (simp add: pass_step_def bind_def Let_def the_num_def setitem_num_dict)
        have e1: "extends h0 ?h1"
          using Cons.prems(1) assms(2) by (rule extends_update)
        from Cons.prems(2) have d1: "the_dict ?h1 ans = Inr (num_dict ?t1)"
          by (simp add: the_dict_Inr)
        from Cons.IH [OF e1 d1, of ?c1] step new0 s old show ?thesis
          by (simp add: Let_def split: sum.splits prod.splits)
      qed
    qed
  qed
qed

lemma pass_h_unfold:
  assumes "corpus_of h0 c = Some C" and "length h0 \<le> ans"
    and "extends h0 h" and "the_dict h ans = Inr (num_dict t)"
  shows "bind (h_iter h c) (\<lambda>pages. for_each pages (pass_step c ans (length C) d) (h, 0)) =
           (case pass_loop C d (keys C) t 0 of
              Inl e \<Rightarrow> Inl e
            | Inr (t', cnt') \<Rightarrow> Inr (h[ans := DictObj (num_dict t')], cnt'))"
  using corpus_of_iter(1) [OF corpus_of_extends [OF assms(3,1)]]
        pass_eq [OF assms(1,2,3,4), of "keys C" d 0]
  by (simp add: bind_def)

lemma while_loop_h_sound_aux:
  assumes co: "corpus_of h0 c = Some C" and le: "length h0 \<le> ans"
    and run: "while_loop_h cc aa NN dd hh = Some yy"
  shows "cc = c \<longrightarrow> aa = ans \<longrightarrow> NN = length C \<longrightarrow> dd = d \<longrightarrow>
           (\<forall>t. extends h0 hh \<longrightarrow> the_dict hh ans = Inr (num_dict t) \<longrightarrow>
              (\<exists>r. while_loop C d t = Some r \<and> yy = store_run hh ans r))"
proof (rule while_loop_h.raw_induct
        [where P = "\<lambda>c' ans' N' d' h y. c' = c \<longrightarrow> ans' = ans \<longrightarrow> N' = length C \<longrightarrow> d' = d \<longrightarrow>
           (\<forall>t. extends h0 h \<longrightarrow> the_dict h ans = Inr (num_dict t) \<longrightarrow>
              (\<exists>r. while_loop C d t = Some r \<and> y = store_run h ans r))",
         OF _ run])
  fix f :: "nat \<Rightarrow> nat \<Rightarrow> nat \<Rightarrow> rat \<Rightarrow> heap \<Rightarrow> (error + heap) option"
    and c' ans' N' d' h y
  assume IH: "\<And>c' ans' N' d' h y. f c' ans' N' d' h = Some y \<Longrightarrow>
                c' = c \<longrightarrow> ans' = ans \<longrightarrow> N' = length C \<longrightarrow> d' = d \<longrightarrow>
                (\<forall>t. extends h0 h \<longrightarrow> the_dict h ans = Inr (num_dict t) \<longrightarrow>
                   (\<exists>r. while_loop C d t = Some r \<and> y = store_run h ans r))"
    and step: "(case bind (h_iter h c')
                       (\<lambda>pages. for_each pages (pass_step c' ans' N' d') (h, 0)) of
                  Inl e \<Rightarrow> Some (Inl e)
                | Inr (h', count) \<Rightarrow>
                    if count = N' then Some (Inr h') else f c' ans' N' d' h') = Some y"
  show "c' = c \<longrightarrow> ans' = ans \<longrightarrow> N' = length C \<longrightarrow> d' = d \<longrightarrow>
          (\<forall>t. extends h0 h \<longrightarrow> the_dict h ans = Inr (num_dict t) \<longrightarrow>
             (\<exists>r. while_loop C d t = Some r \<and> y = store_run h ans r))"
  proof (intro impI allI)
    fix t
    assume eqs: "c' = c" "ans' = ans" "N' = length C" "d' = d"
      and e: "extends h0 h" and dt: "the_dict h ans = Inr (num_dict t)"
    note pu = pass_h_unfold [OF co le e dt, of d]
    show "\<exists>r. while_loop C d t = Some r \<and> y = store_run h ans r"
    proof (cases "pass_loop C d (keys C) t 0")
      case (Inl err)
      with step eqs pu have "y = Inl err" by simp
      moreover from Inl have "while_loop C d t = Some (Inl err)"
        by (subst while_loop.simps) simp
      ultimately show ?thesis by (simp add: store_run_def)
    next
      case (Inr p)
      obtain t1 c1 where p: "p = (t1, c1)" by (cases p)
      let ?h1 = "h[ans := DictObj (num_dict t1)]"
      show ?thesis
      proof (cases "c1 = length C")
        case True
        with step eqs pu Inr p have "y = Inr ?h1" by simp
        moreover from Inr p True have "while_loop C d t = Some (Inr t1)"
          by (subst while_loop.simps) simp
        ultimately show ?thesis by (simp add: store_run_def)
      next
        case False
        with step eqs pu Inr p have rec: "f c ans (length C) d ?h1 = Some y" by simp
        have e1: "extends h0 ?h1" using e le by (rule extends_update)
        from dt have d1: "the_dict ?h1 ans = Inr (num_dict t1)"
          by (simp add: the_dict_Inr)
        from IH [OF rec] e1 d1 obtain r where
          r: "while_loop C d t1 = Some r" and y: "y = store_run ?h1 ans r"
          by blast
        from Inr p False r have "while_loop C d t = Some r"
          by (subst while_loop.simps) simp
        moreover from y have "y = store_run h ans r"
          by (simp add: store_run_def split: sum.splits)
        ultimately show ?thesis by blast
      qed
    qed
  qed
qed

lemma while_loop_h_sound:
  assumes "corpus_of h0 c = Some C" and "length h0 \<le> ans"
    and "while_loop_h c ans (length C) d h = Some y"
    and "extends h0 h" and "the_dict h ans = Inr (num_dict t)"
  shows "\<exists>r. while_loop C d t = Some r \<and> y = store_run h ans r"
  using while_loop_h_sound_aux [OF assms(1,2,3), of d] assms(4,5) by blast

lemma while_loop_complete_aux:
  assumes co: "corpus_of h0 c = Some C" and le: "length h0 \<le> ans"
    and run: "while_loop CC dd tt = Some rr"
  shows "CC = C \<longrightarrow> dd = d \<longrightarrow>
           (\<forall>h. extends h0 h \<longrightarrow> the_dict h ans = Inr (num_dict tt) \<longrightarrow>
              while_loop_h c ans (length C) d h = Some (store_run h ans rr))"
proof (rule while_loop.raw_induct
        [where P = "\<lambda>C' d' t r. C' = C \<longrightarrow> d' = d \<longrightarrow>
           (\<forall>h. extends h0 h \<longrightarrow> the_dict h ans = Inr (num_dict t) \<longrightarrow>
              while_loop_h c ans (length C) d h = Some (store_run h ans r))",
         OF _ run])
  fix f :: "corpus \<Rightarrow> rat \<Rightarrow> rat dict \<Rightarrow> (error + rat dict) option"
    and C' d' t r
  assume IH: "\<And>C' d' t r. f C' d' t = Some r \<Longrightarrow>
                C' = C \<longrightarrow> d' = d \<longrightarrow>
                (\<forall>h. extends h0 h \<longrightarrow> the_dict h ans = Inr (num_dict t) \<longrightarrow>
                   while_loop_h c ans (length C) d h = Some (store_run h ans r))"
    and step: "(case pass_loop C' d' (keys C') t 0 of
                  Inl e \<Rightarrow> Some (Inl e)
                | Inr (ans', count) \<Rightarrow>
                    if count = length C' then Some (Inr ans') else f C' d' ans') = Some r"
  show "C' = C \<longrightarrow> d' = d \<longrightarrow>
          (\<forall>h. extends h0 h \<longrightarrow> the_dict h ans = Inr (num_dict t) \<longrightarrow>
             while_loop_h c ans (length C) d h = Some (store_run h ans r))"
  proof (intro impI allI)
    fix h
    assume eqs: "C' = C" "d' = d"
      and e: "extends h0 h" and dt: "the_dict h ans = Inr (num_dict t)"
    note pu = pass_h_unfold [OF co le e dt, of d]
    show "while_loop_h c ans (length C) d h = Some (store_run h ans r)"
    proof (cases "pass_loop C d (keys C) t 0")
      case (Inl err)
      with step eqs have "r = Inl err" by simp
      with Inl pu show ?thesis
        by (subst while_loop_h.simps) (simp add: store_run_def)
    next
      case (Inr p)
      obtain t1 c1 where p: "p = (t1, c1)" by (cases p)
      let ?h1 = "h[ans := DictObj (num_dict t1)]"
      show ?thesis
      proof (cases "c1 = length C")
        case True
        with step eqs Inr p have "r = Inr t1" by simp
        with Inr p True pu show ?thesis
          by (subst while_loop_h.simps) (simp add: store_run_def)
      next
        case False
        with step eqs Inr p have rec: "f C d t1 = Some r" by simp
        have e1: "extends h0 ?h1" using e le by (rule extends_update)
        from dt have d1: "the_dict ?h1 ans = Inr (num_dict t1)"
          by (simp add: the_dict_Inr)
        from IH [OF rec] e1 d1
        have "while_loop_h c ans (length C) d ?h1 = Some (store_run ?h1 ans r)"
          by blast
        moreover have "store_run ?h1 ans r = store_run h ans r"
          by (simp add: store_run_def split: sum.splits)
        ultimately show ?thesis
          using Inr p False pu by (subst while_loop_h.simps) simp
      qed
    qed
  qed
qed

lemma while_loop_complete:
  assumes "corpus_of h0 c = Some C" and "length h0 \<le> ans"
    and "while_loop C d t = Some r"
    and "extends h0 h" and "the_dict h ans = Inr (num_dict t)"
  shows "while_loop_h c ans (length C) d h = Some (store_run h ans r)"
  using while_loop_complete_aux [OF assms(1,2,3), of d] assms(4,5) by blast

lemma while_loop_h_eq:
  assumes "corpus_of h0 c = Some C" and "length h0 \<le> ans"
    and "extends h0 h" and "the_dict h ans = Inr (num_dict t)"
  shows "while_loop_h c ans (length C) d h = map_option (store_run h ans) (while_loop C d t)"
proof (cases "while_loop C d t")
  case (Some r)
  with while_loop_complete [OF assms(1,2) Some assms(3,4)] show ?thesis by simp
next
  case None
  show ?thesis
  proof (cases "while_loop_h c ans (length C) d h")
    case inner: None
    with None show ?thesis by simp
  next
    case (Some y)
    from while_loop_h_sound [OF assms(1,2) Some assms(3,4)] None show ?thesis by auto
  qed
qed

lemma init_loop_eq:
  "the_dict h ans = Inr (num_dict t) \<Longrightarrow>
     for_each ks (init_step ans N) h =
       (case assign_all ks 1 N t of
          Inl e \<Rightarrow> Inl e
        | Inr t' \<Rightarrow> Inr (h[ans := DictObj (num_dict t')]))"
proof (induction ks arbitrary: h t)
  case Nil
  then show ?case by (simp add: the_dict_update_same)
next
  case (Cons k ks)
  show ?case
  proof (cases "truediv 1 (of_nat N)")
    case (Inl e)
    then show ?thesis by (simp add: init_step_def bind_def)
  next
    case (Inr v)
    let ?h1 = "h[ans := DictObj (num_dict (setitem t k v))]"
    from h_setitem_eq [OF Cons.prems, of k "Num v"] Inr
    have step: "init_step ans N k h = Inr ?h1"
      by (simp add: init_step_def bind_def setitem_num_dict)
    from Cons.prems have d1: "the_dict ?h1 ans = Inr (num_dict (setitem t k v))"
      by (simp add: the_dict_Inr)
    from Cons.IH [OF d1] step Inr show ?thesis by (simp split: sum.splits)
  qed
qed

lemma iterate_pagerank_h_eq:
  assumes "corpus_of h c = Some C"
  shows "iterate_pagerank_h h c d =
           map_option
             (\<lambda>r. case r of
                     Inl e \<Rightarrow> Inl e
                   | Inr ans \<Rightarrow> Inr (h @ [DictObj (num_dict ans)], length h))
             (iterate_pagerank C d)"
proof -
  let ?h1 = "h @ [DictObj []]"
  have e1: "extends h ?h1" by (rule extends_alloc [OF extends_refl])
  have co: "corpus_of ?h1 c = Some C" using e1 assms by (rule corpus_of_extends)
  have d0: "the_dict ?h1 (length h) = Inr (num_dict [])"
    by (simp add: the_dict_Inr num_dict_def)
  note it = corpus_of_iter [OF co]
  show ?thesis
  proof (cases "assign_all (keys C) 1 (length C) []")
    case (Inl e)
    with init_loop_eq [OF d0, of "keys C" "length C"] it show ?thesis
      by (simp add: iterate_pagerank_h_def iterate_pagerank_def alloc_def bind_def)
  next
    case (Inr t0)
    let ?h2 = "h @ [DictObj (num_dict t0)]"
    from init_loop_eq [OF d0, of "keys C" "length C"] Inr
    have i: "for_each (keys C) (init_step (length h) (length C)) ?h1 = Inr ?h2"
      by simp
    have e2: "extends h ?h2" by (rule extends_alloc [OF extends_refl])
    have d2: "the_dict ?h2 (length h) = Inr (num_dict t0)"
      by (simp add: the_dict_Inr)
    have w: "while_loop_h c (length h) (length C) d ?h2 =
               map_option (store_run ?h2 (length h)) (while_loop C d t0)"
      using assms order_refl e2 d2 by (rule while_loop_h_eq)
    have sr: "store_run ?h2 (length h) r =
                (case r of Inl e \<Rightarrow> Inl e | Inr t \<Rightarrow> Inr (h @ [DictObj (num_dict t)]))" for r
      by (simp add: store_run_def split: sum.splits)
    from it i Inr w show ?thesis
      by (simp add: iterate_pagerank_h_def iterate_pagerank_def alloc_def bind_def sr
               split: option.splits sum.splits)
  qed
qed

text \<open>
  Claim C9.  The corpus is an object of the store \<open>h\<close>, at the address \<open>c\<close>, and
  \<open>C\<close> is the corpus that the store holds there.  \<open>transition_model\<close> allocates
  one dictionary at the end of the store, holding exactly the table that
  \<open>transition_model\<close> of the first model computes from \<open>C\<close>, the page and the
  damping factor, and changes no other object; it raises exactly when that
  function raises.  \<open>iterate_pagerank\<close> does the same with the table that
  \<open>iterate_pagerank\<close> of the first model computes from \<open>C\<close> and the damping
  factor, and it returns exactly when that function returns.  When
  \<open>transition_model\<close>, \<open>sample_pagerank\<close> or \<open>iterate_pagerank\<close> returns, every
  object that was in the store before the call, the corpus dictionary and each
  of its outbound sets among them, is the same after it, and the store still
  holds \<open>C\<close> at \<open>c\<close>.
\<close>

theorem corpus_not_mutated:
  assumes "corpus_of h c = Some C"
  shows "transition_model_h h c page d =
           (case transition_model C page d of
              Inl e \<Rightarrow> Inl e
            | Inr cont \<Rightarrow> Inr (h @ [DictObj (num_dict cont)], length h)) \<and>
         iterate_pagerank_h h c d =
           map_option
             (\<lambda>r. case r of
                     Inl e \<Rightarrow> Inl e
                   | Inr ans \<Rightarrow> Inr (h @ [DictObj (num_dict ans)], length h))
             (iterate_pagerank C d) \<and>
         (transition_model_h h c page d = Inr (h1, a1) \<longrightarrow>
            take (length h) h1 = h \<and> corpus_of h1 c = Some C) \<and>
         (sample_pagerank_h h c d n rnd = Inr (h2, a2) \<longrightarrow>
            take (length h) h2 = h \<and> corpus_of h2 c = Some C) \<and>
         (iterate_pagerank_h h c d = Some (Inr (h3, a3)) \<longrightarrow>
            take (length h) h3 = h \<and> corpus_of h3 c = Some C)"
proof -
  have frame: "take (length h) h' = h \<and> corpus_of h' c = Some C" if "extends h h'" for h'
    using that corpus_of_extends [OF that assms] by (simp add: extends_def)
  have "transition_model_h h c page d = Inr (h1, a1) \<longrightarrow>
          take (length h) h1 = h \<and> corpus_of h1 c = Some C"
    using transition_model_h_extends [OF _ extends_refl, of h c page d h1 a1] frame by blast
  moreover
  have "sample_pagerank_h h c d n rnd = Inr (h2, a2) \<longrightarrow>
          take (length h) h2 = h \<and> corpus_of h2 c = Some C"
    using sample_pagerank_h_extends [of h c d n rnd h2 a2] frame by blast
  moreover
  have "iterate_pagerank_h h c d = Some (Inr (h3, a3)) \<longrightarrow>
          take (length h) h3 = h \<and> corpus_of h3 c = Some C"
    using iterate_pagerank_h_extends [of h c d h3 a3] frame by blast
  ultimately show ?thesis
    using transition_model_h_eq [OF assms, of page d] iterate_pagerank_h_eq [OF assms, of d]
    by blast
qed

theorem corpus_not_mutated_witness:
  "corpus_of [SetObj [''B''], SetObj [''A''], DictObj [(''A'', Ref 0), (''B'', Ref 1)]] 2 =
     Some [(''A'', [''B'']), (''B'', [''A''])] \<and>
   transition_model_h [SetObj [''B''], SetObj [''A''], DictObj [(''A'', Ref 0), (''B'', Ref 1)]]
       2 ''A'' (17 / 20) =
     Inr ([SetObj [''B''], SetObj [''A''], DictObj [(''A'', Ref 0), (''B'', Ref 1)],
           DictObj [(''A'', Num (3 / 40)), (''B'', Num (37 / 40))]], 3) \<and>
   sample_pagerank_h [SetObj [''B''], SetObj [''A''], DictObj [(''A'', Ref 0), (''B'', Ref 1)]]
       2 (17 / 20) 1 (\<lambda>i. 0) =
     Inr ([SetObj [''B''], SetObj [''A''], DictObj [(''A'', Ref 0), (''B'', Ref 1)],
           DictObj [(''A'', Num 2), (''B'', Num 0)],
           DictObj [(''A'', Num (3 / 40)), (''B'', Num (37 / 40))]], 3) \<and>
   iterate_pagerank_h [SetObj [''B''], SetObj [''A''], DictObj [(''A'', Ref 0), (''B'', Ref 1)]]
       2 (17 / 20) =
     Some (Inr ([SetObj [''B''], SetObj [''A''], DictObj [(''A'', Ref 0), (''B'', Ref 1)],
                 DictObj [(''A'', Num (1 / 2)), (''B'', Num (1 / 2))]], 3)) \<and>
   corpus_of [SetObj [''B''], SetObj [''A''], DictObj [(''A'', Ref 0), (''B'', Ref 1)],
              DictObj [(''A'', Num 2), (''B'', Num 0)],
              DictObj [(''A'', Num (3 / 40)), (''B'', Num (37 / 40))]] 2 =
     Some [(''A'', [''B'']), (''B'', [''A''])]"
proof -
  let ?h = "[SetObj [''B''], SetObj [''A''], DictObj [(''A'', Ref 0), (''B'', Ref 1)]]"
  have c: "corpus_of ?h 2 = Some [(''A'', [''B'']), (''B'', [''A''])]"
    by (simp add: corpus_of_def)
  have t: "transition_model [(''A'', [''B'']), (''B'', [''A''])] ''A'' (17 / 20) =
             Inr [(''A'', 3 / 40), (''B'', 37 / 40)]"
    by (simp add: transition_model_def getitem_def setitem_def truediv_def keys_def)
  have s: "sample_pagerank_h ?h 2 (17 / 20) 1 (\<lambda>i. 0) =
             Inr ([SetObj [''B''], SetObj [''A''], DictObj [(''A'', Ref 0), (''B'', Ref 1)],
                   DictObj [(''A'', Num 2), (''B'', Num 0)],
                   DictObj [(''A'', Num (3 / 40)), (''B'', Num (37 / 40))]], 3)"
    by (simp add: sample_pagerank_h_def sample_step_def transition_model_h_def alloc_def
        tm_base_step_def tm_link_step_def zero_step_def divide_step_def h_add_to_def
        h_lookup_set_def h_getitem_def h_setitem_def h_iter_def h_len_def the_dict_def
        deref_def the_ref_def the_num_def bind_def random_choice_def random_choices_def
        getitem_def setitem_def truediv_def keys_def)
  have i: "iterate_pagerank_h ?h 2 (17 / 20) =
             Some (Inr ([SetObj [''B''], SetObj [''A''], DictObj [(''A'', Ref 0), (''B'', Ref 1)],
                         DictObj [(''A'', Num (1 / 2)), (''B'', Num (1 / 2))]], 3))"
    by (simp add: iterate_pagerank_h_def while_loop_h.simps pass_step_def sum_step_def
        init_step_def alloc_def h_contains_def Let_def
        h_lookup_set_def h_getitem_def h_setitem_def h_iter_def h_len_def the_dict_def
        deref_def the_ref_def the_num_def bind_def
        getitem_def setitem_def truediv_def keys_def)
  from corpus_not_mutated [OF c, of "''A''" "17 / 20" _ _ 1 "\<lambda>i. 0"
      "[SetObj [''B''], SetObj [''A''], DictObj [(''A'', Ref 0), (''B'', Ref 1)],
        DictObj [(''A'', Num 2), (''B'', Num 0)],
        DictObj [(''A'', Num (3 / 40)), (''B'', Num (37 / 40))]]" 3] c t s i
  show ?thesis
    by (simp add: num_dict_def)
qed

end
